theory Spec2Isabelle
  imports Main
begin

section \<open>Values and exceptions of the host language\<close>

text \<open>
  The class \<^verbatim>\<open>PadicInteger\<close> of \<^verbatim>\<open>padic.py\<close> keeps its digits in a NumPy array whose
  element type is chosen from the prime (\<^verbatim>\<open>uint8\<close>, \<^verbatim>\<open>uint16\<close> or \<^verbatim>\<open>uint32\<close>). Reading
  \<^verbatim>\<open>self.digits[i]\<close> yields a NumPy scalar of that type, and the arithmetic of the three
  operators is carried out on such scalars mixed with Python integers (the literal \<^verbatim>\<open>0\<close>,
  \<^verbatim>\<open>self.prime\<close>). A value is therefore either an unbounded Python integer or an unsigned
  NumPy scalar of a given bit width.

  The scalar arithmetic is that of NumPy 2 (NEP 50): two scalars of unsigned types give
  a scalar of the wider type, reduced modulo \<open>2 ^ width\<close> (an overflow is a warning, not
  an exception); a Python integer next to a scalar is converted to the scalar's type
  first, and raises \<^verbatim>\<open>OverflowError\<close> when it is out of that type's bounds. Under this
  arithmetic the worked scenario of the example entry point (prime 5, precision 10)
  gives the digits the documentation lists.
\<close>

datatype error = ValueError | IndexError | OverflowError | ZeroDivisionError

datatype pyval = PyInt int | NpUInt nat int

text \<open>Sequencing: an exception raised by the first computation ends the whole one.\<close>

fun and_then :: "error + 'a \<Rightarrow> ('a \<Rightarrow> error + 'b) \<Rightarrow> error + 'b" where
  "and_then (Inl e) f = Inl e"
| "and_then (Inr v) f = f v"

fun py_value :: "pyval \<Rightarrow> int" where
  "py_value (PyInt x) = x"
| "py_value (NpUInt w x) = x"

definition in_bounds :: "nat \<Rightarrow> int \<Rightarrow> bool" where
  "in_bounds w x \<longleftrightarrow> 0 \<le> x \<and> x < 2 ^ w"

text \<open>A binary operator \<open>f\<close> on two host values, with NumPy's promotion and wrap-around.\<close>

fun py_binop :: "(int \<Rightarrow> int \<Rightarrow> int) \<Rightarrow> pyval \<Rightarrow> pyval \<Rightarrow> error + pyval" where
  "py_binop f (PyInt x) (PyInt y) = Inr (PyInt (f x y))"
| "py_binop f (NpUInt w x) (PyInt y) =
     (if in_bounds w y then Inr (NpUInt w (f x y mod 2 ^ w)) else Inl OverflowError)"
| "py_binop f (PyInt x) (NpUInt w y) =
     (if in_bounds w x then Inr (NpUInt w (f x y mod 2 ^ w)) else Inl OverflowError)"
| "py_binop f (NpUInt w x) (NpUInt w' y) =
     Inr (NpUInt (max w w') (f x y mod 2 ^ max w w'))"

definition py_add :: "pyval \<Rightarrow> pyval \<Rightarrow> error + pyval" where
  "py_add = py_binop (\<lambda>x y. x + y)"

definition py_sub :: "pyval \<Rightarrow> pyval \<Rightarrow> error + pyval" where
  "py_sub = py_binop (\<lambda>x y. x - y)"

definition py_mul :: "pyval \<Rightarrow> pyval \<Rightarrow> error + pyval" where
  "py_mul = py_binop (\<lambda>x y. x * y)"

text \<open>
  \<^verbatim>\<open>%\<close> and \<^verbatim>\<open>//\<close>: floor division, as \<open>mod\<close> and \<open>div\<close> on \<open>int\<close>. A zero divisor raises
  between Python integers; on NumPy scalars it gives 0 (with a warning).
\<close>

fun py_mod :: "pyval \<Rightarrow> pyval \<Rightarrow> error + pyval" where
  "py_mod (PyInt x) (PyInt y) =
     (if y = 0 then Inl ZeroDivisionError else Inr (PyInt (x mod y)))"
| "py_mod x y = py_binop (\<lambda>a b. if b = 0 then 0 else a mod b) x y"

fun py_floordiv :: "pyval \<Rightarrow> pyval \<Rightarrow> error + pyval" where
  "py_floordiv (PyInt x) (PyInt y) =
     (if y = 0 then Inl ZeroDivisionError else Inr (PyInt (x div y)))"
| "py_floordiv x y = py_binop (\<lambda>a b. if b = 0 then 0 else a div b) x y"

definition py_lt :: "pyval \<Rightarrow> pyval \<Rightarrow> bool" where
  "py_lt x y \<longleftrightarrow> py_value x < py_value y"

section \<open>The data model\<close>

text \<open>
  \<^verbatim>\<open>self.dtype = np.uint8 if prime < 256 else (np.uint16 if prime < 65536 else np.uint32)\<close>,
  as the bit width of the chosen type.
\<close>

definition dtype_of :: "int \<Rightarrow> nat" where
  "dtype_of p = (if p < 256 then 8 else if p < 65536 then 16 else 32)"

record PadicInteger =
  prime :: int
  precision :: nat
  dtype :: nat
  digits :: "int list"

text \<open>
  \<^verbatim>\<open>np.array(xs, dtype=...)\<close> on a list: a Python integer outside the bounds of the type
  raises \<^verbatim>\<open>OverflowError\<close>; a NumPy scalar is cast to the type.
\<close>

fun to_dtype :: "nat \<Rightarrow> pyval \<Rightarrow> error + int" where
  "to_dtype w (PyInt x) = (if in_bounds w x then Inr x else Inl OverflowError)"
| "to_dtype w (NpUInt w' x) = Inr (x mod 2 ^ w)"

fun np_array :: "nat \<Rightarrow> pyval list \<Rightarrow> error + int list" where
  "np_array w [] = Inr []"
| "np_array w (x # xs) =
     (case to_dtype w x of
        Inl e \<Rightarrow> Inl e
      | Inr d \<Rightarrow> (case np_array w xs of Inl e \<Rightarrow> Inl e | Inr ds \<Rightarrow> Inr (d # ds)))"

text \<open>
  \<^verbatim>\<open>_int_to_padic\<close>: \<^verbatim>\<open>for _ in range(self.precision): digits.append(n % self.prime);
  n //= self.prime\<close>, on Python integers. The first argument counts the iterations left.
\<close>

fun int_to_padic_loop :: "nat \<Rightarrow> int \<Rightarrow> int \<Rightarrow> pyval list \<Rightarrow> error + pyval list" where
  "int_to_padic_loop 0 p n ds = Inr ds"
| "int_to_padic_loop (Suc k) p n ds =
     (if p = 0 then Inl ZeroDivisionError
      else int_to_padic_loop k p (n div p) (ds @ [PyInt (n mod p)]))"

definition int_to_padic :: "int \<Rightarrow> nat \<Rightarrow> int \<Rightarrow> error + int list" where
  "int_to_padic p k n =
     (case int_to_padic_loop k p n [] of
        Inl e \<Rightarrow> Inl e
      | Inr ds \<Rightarrow> np_array (dtype_of p) ds)"

text \<open>
  The constructor \<^verbatim>\<open>__init__(value, prime, precision)\<close>, once for each type of \<^verbatim>\<open>value\<close>
  it accepts: an integer, or a list of digits, of which \<^verbatim>\<open>value[:precision]\<close> is kept.
\<close>

definition PadicInteger_int :: "int \<Rightarrow> int \<Rightarrow> nat \<Rightarrow> error + PadicInteger" where
  "PadicInteger_int n p k =
     (case int_to_padic p k n of
        Inl e \<Rightarrow> Inl e
      | Inr ds \<Rightarrow> Inr \<lparr>prime = p, precision = k, dtype = dtype_of p, digits = ds\<rparr>)"

definition PadicInteger_list :: "pyval list \<Rightarrow> int \<Rightarrow> nat \<Rightarrow> error + PadicInteger" where
  "PadicInteger_list v p k =
     (case np_array (dtype_of p) (take k v) of
        Inl e \<Rightarrow> Inl e
      | Inr ds \<Rightarrow> Inr \<lparr>prime = p, precision = k, dtype = dtype_of p, digits = ds\<rparr>)"

text \<open>
  \<^verbatim>\<open>x.digits[i]\<close> for \<open>i \<ge> 0\<close>: a scalar of the array's type, or \<^verbatim>\<open>IndexError\<close> past the
  end of the array. \<^verbatim>\<open>x.digits[i] if i < x.precision else 0\<close> is \<open>digit_or_zero\<close>.
\<close>

definition getitem :: "PadicInteger \<Rightarrow> nat \<Rightarrow> error + pyval" where
  "getitem x i =
     (if i < length (digits x) then Inr (NpUInt (dtype x) (digits x ! i)) else Inl IndexError)"

definition digit_or_zero :: "PadicInteger \<Rightarrow> nat \<Rightarrow> error + pyval" where
  "digit_or_zero x i = (if i < precision x then getitem x i else Inr (PyInt 0))"

section \<open>Addition\<close>

text \<open>
  The body of the loop of \<^verbatim>\<open>__add__\<close> at index \<open>i\<close>: from the carry, the digit appended
  to \<^verbatim>\<open>result\<close> and the next carry.
\<close>

definition add_step :: "PadicInteger \<Rightarrow> PadicInteger \<Rightarrow> nat \<Rightarrow> pyval \<Rightarrow> error + pyval \<times> pyval" where
  "add_step self other i carry =
      and_then (digit_or_zero self i) (\<lambda>a.
      and_then (digit_or_zero other i) (\<lambda>b.
      and_then (py_add a b) (\<lambda>ab.
      and_then (py_add ab carry) (\<lambda>digit_sum.
      and_then (py_mod digit_sum (PyInt (prime self))) (\<lambda>d.
      and_then (py_floordiv digit_sum (PyInt (prime self))) (\<lambda>c.
      Inr (d, c)))))))"

fun add_loop ::
  "PadicInteger \<Rightarrow> PadicInteger \<Rightarrow> nat list \<Rightarrow> pyval list \<Rightarrow> pyval \<Rightarrow> error + pyval list" where
  "add_loop self other [] result carry = Inr result"
| "add_loop self other (i # is) result carry =
     (case add_step self other i carry of
        Inl e \<Rightarrow> Inl e
      | Inr (d, c) \<Rightarrow> add_loop self other is (result @ [d]) c)"

definition add :: "PadicInteger \<Rightarrow> PadicInteger \<Rightarrow> error + PadicInteger" where
  "add self other =
     (if prime self \<noteq> prime other then Inl ValueError
      else case add_loop self other [0 ..< max (precision self) (precision other)] [] (PyInt 0) of
             Inl e \<Rightarrow> Inl e
           | Inr result \<Rightarrow>
               PadicInteger_list result (prime self) (max (precision self) (precision other)))"

section \<open>Subtraction\<close>

text \<open>
  The body of the loop of \<^verbatim>\<open>__sub__\<close> at index \<open>i\<close>:
  \<^verbatim>\<open>digit_diff = a - b - borrow + self.prime\<close>, the digit \<^verbatim>\<open>digit_diff % self.prime\<close> and the
  next borrow \<^verbatim>\<open>1 if digit_diff < self.prime else 0\<close>.
\<close>

definition sub_step :: "PadicInteger \<Rightarrow> PadicInteger \<Rightarrow> nat \<Rightarrow> pyval \<Rightarrow> error + pyval \<times> pyval" where
  "sub_step self other i borrow =
      and_then (digit_or_zero self i) (\<lambda>a.
      and_then (digit_or_zero other i) (\<lambda>b.
      and_then (py_sub a b) (\<lambda>ab.
      and_then (py_sub ab borrow) (\<lambda>abb.
      and_then (py_add abb (PyInt (prime self))) (\<lambda>digit_diff.
      and_then (py_mod digit_diff (PyInt (prime self))) (\<lambda>d.
      Inr (d, if py_lt digit_diff (PyInt (prime self)) then PyInt 1 else PyInt 0)))))))"

fun sub_loop ::
  "PadicInteger \<Rightarrow> PadicInteger \<Rightarrow> nat list \<Rightarrow> pyval list \<Rightarrow> pyval \<Rightarrow> error + pyval list" where
  "sub_loop self other [] result borrow = Inr result"
| "sub_loop self other (i # is) result borrow =
     (case sub_step self other i borrow of
        Inl e \<Rightarrow> Inl e
      | Inr (d, c) \<Rightarrow> sub_loop self other is (result @ [d]) c)"

definition sub :: "PadicInteger \<Rightarrow> PadicInteger \<Rightarrow> error + PadicInteger" where
  "sub self other =
     (if prime self \<noteq> prime other then Inl ValueError
      else case sub_loop self other [0 ..< max (precision self) (precision other)] [] (PyInt 0) of
             Inl e \<Rightarrow> Inl e
           | Inr result \<Rightarrow>
               PadicInteger_list result (prime self) (max (precision self) (precision other)))"

section \<open>Multiplication\<close>

text \<open>Reading and assigning an element of the Python list \<^verbatim>\<open>result\<close>.\<close>

definition list_get :: "pyval list \<Rightarrow> nat \<Rightarrow> error + pyval" where
  "list_get xs i = (if i < length xs then Inr (xs ! i) else Inl IndexError)"

definition list_set :: "pyval list \<Rightarrow> nat \<Rightarrow> pyval \<Rightarrow> error + pyval list" where
  "list_set xs i v = (if i < length xs then Inr (xs[i := v]) else Inl IndexError)"

text \<open>
  The body of the inner loop of \<^verbatim>\<open>__mul__\<close> at \<open>(i, j)\<close>:
  \<^verbatim>\<open>temp = result[i+j] + self.digits[i] * other.digits[j] + carry\<close>, then
  \<^verbatim>\<open>result[i+j] = temp % self.prime\<close> and \<^verbatim>\<open>carry = temp // self.prime\<close>. The operands
  are evaluated from left to right.
\<close>

definition mul_step ::
  "PadicInteger \<Rightarrow> PadicInteger \<Rightarrow> nat \<Rightarrow> nat \<Rightarrow> pyval list \<times> pyval \<Rightarrow> error + pyval list \<times> pyval" where
  "mul_step self other i j st =
      and_then (list_get (fst st) (i + j)) (\<lambda>r.
      and_then (getitem self i) (\<lambda>a.
      and_then (getitem other j) (\<lambda>b.
      and_then (py_mul a b) (\<lambda>ab.
      and_then (py_add r ab) (\<lambda>rab.
      and_then (py_add rab (snd st)) (\<lambda>temp.
      and_then (py_mod temp (PyInt (prime self))) (\<lambda>d.
      and_then (list_set (fst st) (i + j) d) (\<lambda>result.
      and_then (py_floordiv temp (PyInt (prime self))) (\<lambda>c.
      Inr (result, c))))))))))"

fun mul_inner ::
  "PadicInteger \<Rightarrow> PadicInteger \<Rightarrow> nat \<Rightarrow> nat list \<Rightarrow> pyval list \<times> pyval \<Rightarrow> error + pyval list \<times> pyval" where
  "mul_inner self other i [] st = Inr st"
| "mul_inner self other i (j # js) st =
     (case mul_step self other i j st of
        Inl e \<Rightarrow> Inl e
      | Inr st' \<Rightarrow> mul_inner self other i js st')"

text \<open>
  One pass of the outer loop: \<^verbatim>\<open>carry = 0\<close>, the inner loop over \<^verbatim>\<open>range(other.precision)\<close>,
  then \<^verbatim>\<open>result[i+other.precision] = carry\<close>.
\<close>

definition mul_row :: "PadicInteger \<Rightarrow> PadicInteger \<Rightarrow> nat \<Rightarrow> pyval list \<Rightarrow> error + pyval list" where
  "mul_row self other i result =
     (case mul_inner self other i [0 ..< precision other] (result, PyInt 0) of
        Inl e \<Rightarrow> Inl e
      | Inr (result', carry) \<Rightarrow> list_set result' (i + precision other) carry)"

fun mul_outer ::
  "PadicInteger \<Rightarrow> PadicInteger \<Rightarrow> nat list \<Rightarrow> pyval list \<Rightarrow> error + pyval list" where
  "mul_outer self other [] result = Inr result"
| "mul_outer self other (i # is) result =
     (case mul_row self other i result of
        Inl e \<Rightarrow> Inl e
      | Inr result' \<Rightarrow> mul_outer self other is result')"

definition mul :: "PadicInteger \<Rightarrow> PadicInteger \<Rightarrow> error + PadicInteger" where
  "mul self other =
     (if prime self \<noteq> prime other then Inl ValueError
      else case mul_outer self other [0 ..< precision self]
                  (replicate (precision self + precision other) (PyInt 0)) of
             Inl e \<Rightarrow> Inl e
           | Inr result \<Rightarrow>
               PadicInteger_list result (prime self) (precision self + precision other))"

section \<open>What the digits stand for\<close>

text \<open>
  The integer that a little-endian digit list stands for in base \<open>p\<close>, and the
  little-endian base-\<open>p\<close> digit expansion of a non-negative integer, which has no
  digits for 0 and is padded with zeros to a given length by \<open>zero_pad\<close>.
\<close>

fun padic_val :: "int \<Rightarrow> int list \<Rightarrow> int" where
  "padic_val p [] = 0"
| "padic_val p (d # ds) = d + p * padic_val p ds"

function base_digits :: "int \<Rightarrow> int \<Rightarrow> int list" where
  "base_digits p m = (if m \<le> 0 \<or> p < 2 then [] else (m mod p) # base_digits p (m div p))"
  by pat_completeness auto
termination
proof (relation "measure (\<lambda>(p, m). nat m)")
  show "wf (measure (\<lambda>(p, m). nat m))" by simp
next
  fix p m :: int
  assume "\<not> (m \<le> 0 \<or> p < 2)"
  then have "0 < m" "1 < p" by simp_all
  then have "m div p < m" by (rule int_div_less_self)
  moreover have "0 \<le> m div p" using \<open>0 < m\<close> \<open>1 < p\<close> by (simp add: pos_imp_zdiv_nonneg_iff)
  ultimately show "((p, m div p), (p, m)) \<in> measure (\<lambda>(p, m). nat m)" using \<open>0 < m\<close> by simp
qed

declare base_digits.simps [simp del]

definition zero_pad :: "nat \<Rightarrow> int list \<Rightarrow> int list" where
  "zero_pad k ds = ds @ replicate (k - length ds) 0"

definition padded_expansion :: "int \<Rightarrow> nat \<Rightarrow> int \<Rightarrow> int list" where
  "padded_expansion p k m = zero_pad k (base_digits p m)"

section \<open>The arithmetic as documented, on unbounded integers\<close>

text \<open>
  The three algorithms as the documentation words them, on lists of unbounded integers:
  a digit that an operand lacks reads as 0, and no storage width enters. They are what
  the operators above are compared with.
\<close>

definition digit_at :: "int list \<Rightarrow> nat \<Rightarrow> int" where
  "digit_at ds i = (if i < length ds then ds ! i else 0)"

text \<open>
  Addition: at each position \<open>sum = a_digit + b_digit + carry_in\<close>, the output digit
  is \<open>sum mod prime\<close> and \<open>carry_out = sum div prime\<close>; the positions are
  \<open>0 .. max ka kb - 1\<close> and the last carry is dropped.
\<close>

fun spec_add_digits :: "int \<Rightarrow> int list \<Rightarrow> int list \<Rightarrow> nat list \<Rightarrow> int \<Rightarrow> int list" where
  "spec_add_digits p as bs [] carry = []"
| "spec_add_digits p as bs (i # is) carry =
     ((digit_at as i + digit_at bs i + carry) mod p) #
       spec_add_digits p as bs is ((digit_at as i + digit_at bs i + carry) div p)"

definition spec_add :: "int \<Rightarrow> nat \<Rightarrow> nat \<Rightarrow> int list \<Rightarrow> int list \<Rightarrow> int list" where
  "spec_add p ka kb as bs = spec_add_digits p as bs [0 ..< max ka kb] 0"

text \<open>
  Subtraction: \<open>diff = a_digit - b_digit - borrow_in + prime\<close>, the output digit is
  \<open>diff mod prime\<close> and \<open>borrow_out\<close> is 1 if \<open>diff < prime\<close>, else 0.
\<close>

fun spec_sub_digits :: "int \<Rightarrow> int list \<Rightarrow> int list \<Rightarrow> nat list \<Rightarrow> int \<Rightarrow> int list" where
  "spec_sub_digits p as bs [] borrow = []"
| "spec_sub_digits p as bs (i # is) borrow =
     ((digit_at as i - digit_at bs i - borrow + p) mod p) #
       spec_sub_digits p as bs is
         (if digit_at as i - digit_at bs i - borrow + p < p then 1 else 0)"

definition spec_sub :: "int \<Rightarrow> nat \<Rightarrow> nat \<Rightarrow> int list \<Rightarrow> int list \<Rightarrow> int list" where
  "spec_sub p ka kb as bs = spec_sub_digits p as bs [0 ..< max ka kb] 0"

text \<open>
  Multiplication: schoolbook convolution into a buffer of \<open>ka + kb\<close> zeros; for each
  \<open>i\<close> and each \<open>j\<close>, \<open>result[i+j] + a[i] * b[j] + carry\<close> is accumulated, its residue
  modulo the prime stored at \<open>i+j\<close> and its quotient carried on; after the inner loop the
  carry is written at \<open>i + kb\<close>.
\<close>

fun spec_mul_inner ::
  "int \<Rightarrow> int list \<Rightarrow> int list \<Rightarrow> nat \<Rightarrow> nat list \<Rightarrow> int list \<times> int \<Rightarrow> int list \<times> int" where
  "spec_mul_inner p as bs i [] st = st"
| "spec_mul_inner p as bs i (j # js) st =
     spec_mul_inner p as bs i js
       ((fst st)[i + j := (digit_at (fst st) (i + j) + digit_at as i * digit_at bs j + snd st) mod p],
        (digit_at (fst st) (i + j) + digit_at as i * digit_at bs j + snd st) div p)"

definition spec_mul_row :: "int \<Rightarrow> nat \<Rightarrow> int list \<Rightarrow> int list \<Rightarrow> nat \<Rightarrow> int list \<Rightarrow> int list" where
  "spec_mul_row p kb as bs i result =
     (fst (spec_mul_inner p as bs i [0 ..< kb] (result, 0)))
       [i + kb := snd (spec_mul_inner p as bs i [0 ..< kb] (result, 0))]"

fun spec_mul_outer ::
  "int \<Rightarrow> nat \<Rightarrow> int list \<Rightarrow> int list \<Rightarrow> nat list \<Rightarrow> int list \<Rightarrow> int list" where
  "spec_mul_outer p kb as bs [] result = result"
| "spec_mul_outer p kb as bs (i # is) result =
     spec_mul_outer p kb as bs is (spec_mul_row p kb as bs i result)"

definition spec_mul :: "int \<Rightarrow> nat \<Rightarrow> nat \<Rightarrow> int list \<Rightarrow> int list \<Rightarrow> int list" where
  "spec_mul p ka kb as bs = spec_mul_outer p kb as bs [0 ..< ka] (replicate (ka + kb) 0)"

section \<open>Well-formed values\<close>

text \<open>
  A value as the constructors build it from digits in range: the storage type is the one
  chosen from the prime, there are as many digits as the precision says, and each digit
  lies in \<open>[0, prime - 1]\<close>.
\<close>

definition well_formed :: "PadicInteger \<Rightarrow> bool" where
  "well_formed x \<longleftrightarrow>
     dtype x = dtype_of (prime x) \<and> length (digits x) = precision x \<and>
     (\<forall>d\<in>set (digits x). 0 \<le> d \<and> d < prime x)"

text \<open>
  A host value that is the integer \<open>x\<close>, as a Python integer or as a scalar of width
  \<open>w\<close>; and one that is \<open>x\<close> up to the wrap-around of a scalar of width \<open>w\<close>.
\<close>

definition stores :: "nat \<Rightarrow> pyval \<Rightarrow> int \<Rightarrow> bool" where
  "stores w v x \<longleftrightarrow> v = PyInt x \<or> v = NpUInt w x"

definition wraps :: "nat \<Rightarrow> pyval \<Rightarrow> int \<Rightarrow> bool" where
  "wraps w v x \<longleftrightarrow> v = PyInt x \<or> v = NpUInt w (x mod 2 ^ w)"

section \<open>Exceptions of the operators\<close>

text \<open>
  None of the steps of the three operators raises \<^verbatim>\<open>ValueError\<close>: the only place that
  does is the comparison of the primes at the head of each operator.
\<close>

lemma and_then_Inl_iff:
  "and_then m f = Inl e \<longleftrightarrow> m = Inl e \<or> (\<exists>v. m = Inr v \<and> f v = Inl e)"
  by (cases m) auto

lemma py_binop_not_ValueError: "py_binop f x y \<noteq> Inl ValueError"
  by (cases x; cases y) auto

lemma py_add_not_ValueError: "py_add x y \<noteq> Inl ValueError"
  by (simp add: py_add_def py_binop_not_ValueError)

lemma py_sub_not_ValueError: "py_sub x y \<noteq> Inl ValueError"
  by (simp add: py_sub_def py_binop_not_ValueError)

lemma py_mul_not_ValueError: "py_mul x y \<noteq> Inl ValueError"
  by (simp add: py_mul_def py_binop_not_ValueError)

lemma py_mod_not_ValueError: "py_mod x y \<noteq> Inl ValueError"
  by (cases x; cases y) (auto simp: py_binop_not_ValueError)

lemma py_floordiv_not_ValueError: "py_floordiv x y \<noteq> Inl ValueError"
  by (cases x; cases y) (auto simp: py_binop_not_ValueError)

lemma getitem_not_ValueError: "getitem x i \<noteq> Inl ValueError"
  by (simp add: getitem_def)

lemma digit_or_zero_not_ValueError: "digit_or_zero x i \<noteq> Inl ValueError"
  by (simp add: digit_or_zero_def getitem_not_ValueError)

lemma list_get_not_ValueError: "list_get xs i \<noteq> Inl ValueError"
  by (simp add: list_get_def)

lemma list_set_not_ValueError: "list_set xs i v \<noteq> Inl ValueError"
  by (simp add: list_set_def)

lemmas not_ValueError =
  py_add_not_ValueError py_sub_not_ValueError py_mul_not_ValueError py_mod_not_ValueError
  py_floordiv_not_ValueError getitem_not_ValueError digit_or_zero_not_ValueError
  list_get_not_ValueError list_set_not_ValueError

lemma add_step_not_ValueError: "add_step a b i c \<noteq> Inl ValueError"
  by (simp add: add_step_def and_then_Inl_iff not_ValueError)

lemma sub_step_not_ValueError: "sub_step a b i c \<noteq> Inl ValueError"
  by (simp add: sub_step_def and_then_Inl_iff not_ValueError)

lemma mul_step_not_ValueError: "mul_step a b i j st \<noteq> Inl ValueError"
  by (simp add: mul_step_def and_then_Inl_iff not_ValueError)

lemma add_loop_not_ValueError: "add_loop a b is r c \<noteq> Inl ValueError"
  by (induction "is" arbitrary: r c) (auto simp: add_step_not_ValueError split: sum.splits)

lemma sub_loop_not_ValueError: "sub_loop a b is r c \<noteq> Inl ValueError"
  by (induction "is" arbitrary: r c) (auto simp: sub_step_not_ValueError split: sum.splits)

lemma mul_inner_not_ValueError: "mul_inner a b i js st \<noteq> Inl ValueError"
  by (induction js arbitrary: st) (auto simp: mul_step_not_ValueError split: sum.splits)

lemma mul_row_not_ValueError: "mul_row a b i r \<noteq> Inl ValueError"
  by (auto simp: mul_row_def mul_inner_not_ValueError list_set_not_ValueError split: sum.splits)

lemma mul_outer_not_ValueError: "mul_outer a b is r \<noteq> Inl ValueError"
  by (induction "is" arbitrary: r) (auto simp: mul_row_not_ValueError split: sum.splits)

lemma to_dtype_not_ValueError: "to_dtype w x \<noteq> Inl ValueError"
  by (cases x) auto

lemma np_array_not_ValueError: "np_array w xs \<noteq> Inl ValueError"
  by (induction xs) (auto simp: to_dtype_not_ValueError split: sum.splits)

lemma PadicInteger_list_not_ValueError: "PadicInteger_list v p k \<noteq> Inl ValueError"
  by (auto simp: PadicInteger_list_def np_array_not_ValueError split: sum.splits)

text \<open>
  Claim C5. Each of \<open>add\<close>, \<open>sub\<close> and \<open>mul\<close> fails with the operand-mismatch error
  (the \<^verbatim>\<open>ValueError\<close> of the source) if and only if the primes of the two operands
  differ. The test of the primes comes before any digit is read, so with differing
  primes the result is this error whatever the digits are, also where reading them
  would fail. The operators are functions of their operands and return a new value:
  the operands are not changed.
\<close>

theorem operand_mismatch_iff:
  "(add a b = Inl ValueError \<longleftrightarrow> prime a \<noteq> prime b) \<and>
   (sub a b = Inl ValueError \<longleftrightarrow> prime a \<noteq> prime b) \<and>
   (mul a b = Inl ValueError \<longleftrightarrow> prime a \<noteq> prime b)"
  by (auto simp: add_def sub_def mul_def add_loop_not_ValueError sub_loop_not_ValueError
      mul_outer_not_ValueError PadicInteger_list_not_ValueError split: sum.splits)

text \<open>
  The equivalence at a concrete pair with primes 5 and 7, whose digit arrays are too
  short to be read at index 1: the mismatch is reported first.
\<close>

theorem operand_mismatch_iff_witness:
  "prime \<lparr>prime = 5, precision = 2, dtype = 8, digits = [1]\<rparr> \<noteq>
     prime \<lparr>prime = 7, precision = 2, dtype = 8, digits = [1]\<rparr> \<and>
   add \<lparr>prime = 5, precision = 2, dtype = 8, digits = [1]\<rparr>
       \<lparr>prime = 7, precision = 2, dtype = 8, digits = [1]\<rparr> = Inl ValueError \<and>
   sub \<lparr>prime = 5, precision = 2, dtype = 8, digits = [1]\<rparr>
       \<lparr>prime = 7, precision = 2, dtype = 8, digits = [1]\<rparr> = Inl ValueError \<and>
   mul \<lparr>prime = 5, precision = 2, dtype = 8, digits = [1]\<rparr>
       \<lparr>prime = 7, precision = 2, dtype = 8, digits = [1]\<rparr> = Inl ValueError"
  using operand_mismatch_iff [of "\<lparr>prime = 5, precision = 2, dtype = 8, digits = [1]\<rparr>"
      "\<lparr>prime = 7, precision = 2, dtype = 8, digits = [1]\<rparr>"]
  by simp

section \<open>Construction\<close>

subsection \<open>Digit expansions\<close>

lemma zero_pad_Cons: "zero_pad (Suc k) (d # ds) = d # zero_pad k ds"
  by (simp add: zero_pad_def)

lemma zero_pad_Nil: "zero_pad k [] = replicate k 0"
  by (simp add: zero_pad_def)

lemma base_digits_zero: "base_digits p 0 = []"
  by (subst base_digits.simps) simp

lemma base_digits_pos:
  "0 < m \<Longrightarrow> 2 \<le> p \<Longrightarrow> base_digits p m = (m mod p) # base_digits p (m div p)"
  by (subst base_digits.simps) simp

lemma padded_expansion_Suc:
  assumes "0 \<le> m" "2 \<le> p"
  shows "padded_expansion p (Suc k) m = (m mod p) # padded_expansion p k (m div p)"
proof (cases "m = 0")
  case True
  then show ?thesis by (simp add: padded_expansion_def base_digits_zero zero_pad_Nil)
next
  case False
  with assms have "base_digits p m = (m mod p) # base_digits p (m div p)"
    by (intro base_digits_pos) simp_all
  then show ?thesis by (simp add: padded_expansion_def zero_pad_Cons)
qed

lemma mod_power_Suc_mod:
  fixes n p :: int
  shows "(n mod p ^ Suc k) mod p = n mod p"
  by (simp add: mod_mod_cancel)

lemma mod_power_Suc_div:
  fixes n p :: int
  assumes "0 < p"
  shows "(n mod p ^ Suc k) div p = (n div p) mod p ^ k"
proof -
  have "n mod (p * p ^ k) = p * (n div p mod p ^ k) + n mod p"
    using assms by (simp add: zmod_zmult2_eq)
  then have "(n mod p ^ Suc k) div p = (p * (n div p mod p ^ k) + n mod p) div p" by simp
  also have "\<dots> = n div p mod p ^ k" using assms by (simp add: div_pos_pos_trivial)
  finally show ?thesis .
qed

lemma int_to_padic_loop_eq:
  assumes "2 \<le> p"
  shows "int_to_padic_loop k p n ds = Inr (ds @ map PyInt (padded_expansion p k (n mod p ^ k)))"
proof (induction k arbitrary: n ds)
  case 0
  then show ?case by (simp add: padded_expansion_def base_digits_zero zero_pad_Nil)
next
  case (Suc k)
  have m: "0 \<le> n mod p ^ Suc k" using assms by simp
  have "padded_expansion p (Suc k) (n mod p ^ Suc k) =
        (n mod p) # padded_expansion p k ((n div p) mod p ^ k)"
    using padded_expansion_Suc [OF m assms, of k] assms
    by (simp only: mod_power_Suc_mod mod_power_Suc_div)
  then show ?case using assms Suc.IH [of "n div p" "ds @ [PyInt (n mod p)]"] by simp
qed

lemma base_digits_range:
  "2 \<le> p \<Longrightarrow> d \<in> set (base_digits p m) \<Longrightarrow> 0 \<le> d \<and> d < p"
proof (induction p m rule: base_digits.induct)
  case (1 p m)
  show ?case
  proof (cases "m \<le> 0 \<or> p < 2")
    case True
    then have "base_digits p m = []" by (subst base_digits.simps) simp
    with 1 show ?thesis by simp
  next
    case False
    then have eq: "base_digits p m = (m mod p) # base_digits p (m div p)"
      by (subst base_digits.simps) simp
    from "1.prems"(2) eq have "d = m mod p \<or> d \<in> set (base_digits p (m div p))" by simp
    then show ?thesis
    proof
      assume "d = m mod p"
      then show ?thesis using "1.prems"(1) by simp
    next
      assume "d \<in> set (base_digits p (m div p))"
      then show ?thesis using "1.IH" [OF False "1.prems"(1)] by simp
    qed
  qed
qed

lemma padded_expansion_range:
  assumes "2 \<le> p" "d \<in> set (padded_expansion p k m)"
  shows "0 \<le> d \<and> d < p"
  using assms base_digits_range [of p d m] by (auto simp: padded_expansion_def zero_pad_def)

lemma length_base_digits:
  "2 \<le> p \<Longrightarrow> 0 \<le> m \<Longrightarrow> m < p ^ k \<Longrightarrow> length (base_digits p m) \<le> k"
proof (induction k arbitrary: m)
  case 0
  then have "m = 0" by simp
  then show ?case by (simp add: base_digits_zero)
next
  case (Suc k)
  show ?case
  proof (cases "m = 0")
    case True
    then show ?thesis by (simp add: base_digits_zero)
  next
    case False
    with Suc.prems have eq: "base_digits p m = (m mod p) # base_digits p (m div p)"
      by (intro base_digits_pos) simp_all
    have pos: "0 < p" using Suc.prems by simp
    have "p * (m div p) \<le> m"
      using mult_div_mod_eq [of p m] pos_mod_sign [OF pos, of m] by linarith
    moreover have "m < p * p ^ k" using Suc.prems by simp
    ultimately have "p * (m div p) < p * p ^ k" by linarith
    then have "m div p < p ^ k" using pos by (simp add: mult_less_cancel_left_pos)
    moreover have "0 \<le> m div p" using Suc.prems by (simp add: pos_imp_zdiv_nonneg_iff)
    ultimately show ?thesis using Suc.IH [of "m div p"] Suc.prems eq by simp
  qed
qed

lemma length_padded_expansion:
  assumes "2 \<le> p"
  shows "length (padded_expansion p k (n mod p ^ k)) = k"
proof -
  have "length (base_digits p (n mod p ^ k)) \<le> k"
    using assms by (intro length_base_digits) simp_all
  then show ?thesis by (simp add: padded_expansion_def zero_pad_def)
qed

lemma padic_val_append_zeros: "padic_val p (ds @ replicate j 0) = padic_val p ds"
proof (induction ds)
  case Nil
  show ?case by (induction j) simp_all
next
  case (Cons d ds)
  then show ?case by simp
qed

lemma padic_val_base_digits: "2 \<le> p \<Longrightarrow> 0 \<le> m \<Longrightarrow> padic_val p (base_digits p m) = m"
proof (induction p m rule: base_digits.induct)
  case (1 p m)
  show ?case
  proof (cases "m = 0")
    case True
    then show ?thesis by (simp add: base_digits_zero)
  next
    case False
    with "1.prems" have pos: "0 < m" by simp
    then have eq: "base_digits p m = (m mod p) # base_digits p (m div p)"
      using "1.prems" by (intro base_digits_pos) simp_all
    have "0 \<le> m div p" using "1.prems" by (simp add: pos_imp_zdiv_nonneg_iff)
    then have "padic_val p (base_digits p (m div p)) = m div p"
      using "1.IH" "1.prems" pos by simp
    then show ?thesis using eq by simp
  qed
qed

lemma padic_val_padded_expansion:
  "2 \<le> p \<Longrightarrow> 0 \<le> m \<Longrightarrow> padic_val p (padded_expansion p k m) = m"
  by (simp add: padded_expansion_def zero_pad_def padic_val_append_zeros padic_val_base_digits)

subsection \<open>The two constructors\<close>

lemma np_array_PyInt:
  "np_array w (map PyInt ds) =
     (if \<forall>d\<in>set ds. in_bounds w d then Inr ds else Inl OverflowError)"
  by (induction ds) auto

lemma in_bounds_dtype_of:
  assumes "0 \<le> d" "d < p"
  shows "in_bounds (dtype_of p) d \<longleftrightarrow> d < 2 ^ 32"
  using assms by (auto simp: in_bounds_def dtype_of_def)

lemma PadicInteger_int_eq:
  assumes "2 \<le> p"
  shows "PadicInteger_int n p k =
     (if \<forall>d\<in>set (padded_expansion p k (n mod p ^ k)). d < 2 ^ 32
      then Inr \<lparr>prime = p, precision = k, dtype = dtype_of p,
                digits = padded_expansion p k (n mod p ^ k)\<rparr>
      else Inl OverflowError)"
proof -
  have "(\<forall>d\<in>set (padded_expansion p k (n mod p ^ k)). in_bounds (dtype_of p) d) \<longleftrightarrow>
        (\<forall>d\<in>set (padded_expansion p k (n mod p ^ k)). d < 2 ^ 32)"
    using padded_expansion_range [OF assms] in_bounds_dtype_of by blast
  then show ?thesis
    using int_to_padic_loop_eq [OF assms, of k n "[]"]
    by (simp add: PadicInteger_int_def int_to_padic_def np_array_PyInt)
qed

lemma digits_fit_uint32:
  assumes "2 \<le> p" "p \<le> 2 ^ 32" "d \<in> set (padded_expansion p k m)"
  shows "d < 2 ^ 32"
  using padded_expansion_range [OF assms(1) assms(3)] assms(2) by simp

text \<open>
  Construction from an integer \<open>n \<ge> 0\<close> with a base \<open>p \<ge> 2\<close> and a precision
  \<open>k \<ge> 1\<close>: the little-endian base-\<open>p\<close> expansion of \<open>n mod p ^ k\<close>, zero-padded to
  length exactly \<open>k\<close>, is a list that stands for \<open>n mod p ^ k\<close>, and the constructor
  returns it as long as each of its digits is below \<open>2 ^ 32\<close>, which is so for every
  base \<open>p \<le> 2 ^ 32\<close>. The widest storage type of line 17 has 32 bits, so a digit from
  \<open>2 ^ 32\<close> on is not stored.
\<close>

lemma PadicInteger_int_nonneg:
  assumes "0 \<le> n" "2 \<le> p" "1 \<le> k"
  shows "PadicInteger_int n p k =
           (if \<forall>d\<in>set (padded_expansion p k (n mod p ^ k)). d < 2 ^ 32
            then Inr \<lparr>prime = p, precision = k, dtype = dtype_of p,
                      digits = padded_expansion p k (n mod p ^ k)\<rparr>
            else Inl OverflowError) \<and>
         length (padded_expansion p k (n mod p ^ k)) = k \<and>
         padic_val p (padded_expansion p k (n mod p ^ k)) = n mod p ^ k \<and>
         (p \<le> 2 ^ 32 \<longrightarrow> (\<forall>d\<in>set (padded_expansion p k (n mod p ^ k)). d < 2 ^ 32))"
proof (intro conjI)
  show "PadicInteger_int n p k =
           (if \<forall>d\<in>set (padded_expansion p k (n mod p ^ k)). d < 2 ^ 32
            then Inr \<lparr>prime = p, precision = k, dtype = dtype_of p,
                      digits = padded_expansion p k (n mod p ^ k)\<rparr>
            else Inl OverflowError)"
    by (rule PadicInteger_int_eq [OF assms(2)])
  show "length (padded_expansion p k (n mod p ^ k)) = k"
    by (rule length_padded_expansion [OF assms(2)])
  show "padic_val p (padded_expansion p k (n mod p ^ k)) = n mod p ^ k"
    using assms(2) by (intro padic_val_padded_expansion) simp_all
  show "p \<le> 2 ^ 32 \<longrightarrow> (\<forall>d\<in>set (padded_expansion p k (n mod p ^ k)). d < 2 ^ 32)"
    using digits_fit_uint32 [OF assms(2)] by blast
qed

text \<open>The documented value \<open>a\<close> of the worked scenario: 123 in base 5 with 10 digits.\<close>

lemma PadicInteger_int_nonneg_example:
  "(0::int) \<le> 123 \<and> (2::int) \<le> 5 \<and> (1::nat) \<le> 10 \<and>
   PadicInteger_int 123 5 10 =
     Inr \<lparr>prime = 5, precision = 10, dtype = 8, digits = [3, 4, 4, 0, 0, 0, 0, 0, 0, 0]\<rparr>"
proof -
  have e: "padded_expansion 5 10 123 = [3, 4, 4, 0, 0, 0, 0, 0, 0, 0]"
    by code_simp
  show ?thesis
    using PadicInteger_int_nonneg [of 123 5 10] by (simp add: e dtype_of_def)
qed

text \<open>
  Construction from any integer \<open>n\<close>, negative ones included, with a base \<open>p \<ge> 2\<close>
  and any precision \<open>k \<ge> 0\<close>: the digits of the little-endian base-\<open>p\<close> expansion of
  \<open>n mod p ^ k\<close> (floor division and modulo) lie in \<open>[0, p - 1]\<close>; the constructor
  returns that expansion, zero-padded to length \<open>k\<close>, as long as each of its digits is
  below \<open>2 ^ 32\<close>, which is so for every base \<open>p \<le> 2 ^ 32\<close>; and construction from \<open>n\<close>
  equals construction from \<open>n mod p ^ k\<close>.
\<close>

lemma PadicInteger_int_any:
  assumes "2 \<le> p"
  shows "(\<forall>d\<in>set (padded_expansion p k (n mod p ^ k)). 0 \<le> d \<and> d \<le> p - 1) \<and>
         PadicInteger_int n p k =
           (if \<forall>d\<in>set (padded_expansion p k (n mod p ^ k)). d < 2 ^ 32
            then Inr \<lparr>prime = p, precision = k, dtype = dtype_of p,
                      digits = padded_expansion p k (n mod p ^ k)\<rparr>
            else Inl OverflowError) \<and>
         (p \<le> 2 ^ 32 \<longrightarrow> (\<forall>d\<in>set (padded_expansion p k (n mod p ^ k)). d < 2 ^ 32)) \<and>
         PadicInteger_int n p k = PadicInteger_int (n mod p ^ k) p k"
proof (intro conjI)
  show "\<forall>d\<in>set (padded_expansion p k (n mod p ^ k)). 0 \<le> d \<and> d \<le> p - 1"
    using padded_expansion_range [OF assms] by fastforce
  show "PadicInteger_int n p k =
           (if \<forall>d\<in>set (padded_expansion p k (n mod p ^ k)). d < 2 ^ 32
            then Inr \<lparr>prime = p, precision = k, dtype = dtype_of p,
                      digits = padded_expansion p k (n mod p ^ k)\<rparr>
            else Inl OverflowError)"
    by (rule PadicInteger_int_eq [OF assms])
  show "p \<le> 2 ^ 32 \<longrightarrow> (\<forall>d\<in>set (padded_expansion p k (n mod p ^ k)). d < 2 ^ 32)"
    using digits_fit_uint32 [OF assms] by blast
  show "PadicInteger_int n p k = PadicInteger_int (n mod p ^ k) p k"
    by (simp add: PadicInteger_int_eq [OF assms])
qed

text \<open>A negative integer: \<open>- 1\<close> in base 5 with 3 digits is \<open>[4, 4, 4]\<close>, as 124 is.\<close>

lemma PadicInteger_int_any_example:
  "(2::int) \<le> 5 \<and>
   PadicInteger_int (- 1) 5 3 = Inr \<lparr>prime = 5, precision = 3, dtype = 8, digits = [4, 4, 4]\<rparr> \<and>
   PadicInteger_int (- 1) 5 3 = PadicInteger_int 124 5 3"
proof -
  have e: "padded_expansion 5 3 124 = [4, 4, 4]"
    by code_simp
  show ?thesis
    using PadicInteger_int_any [of 5 3 "- 1"] by (auto simp: e dtype_of_def)
qed

text \<open>
  Construction from a digit sequence \<open>d\<close> of length exactly \<open>k\<close> whose digits lie in
  \<open>[0, p - 1]\<close> and are below \<open>2 ^ 32\<close> keeps \<open>d\<close> as it is: nothing is cut and nothing
  is padded.
\<close>

lemma PadicInteger_list_roundtrip:
  assumes "2 \<le> p" "length d = k" "\<forall>x\<in>set d. 0 \<le> x \<and> x \<le> p - 1 \<and> x < 2 ^ 32"
  shows "PadicInteger_list (map PyInt d) p k =
           Inr \<lparr>prime = p, precision = k, dtype = dtype_of p, digits = d\<rparr>"
proof -
  have "\<forall>x\<in>set d. in_bounds (dtype_of p) x"
  proof
    fix x assume "x \<in> set d"
    with assms(3) have "0 \<le> x" "x < p" "x < 2 ^ 32" by auto
    then show "in_bounds (dtype_of p) x" by (simp add: in_bounds_dtype_of)
  qed
  then show ?thesis using assms(2) by (simp add: PadicInteger_list_def np_array_PyInt)
qed

text \<open>The round trip for the digits \<open>[3, 4, 4]\<close> in base 5.\<close>

lemma PadicInteger_list_roundtrip_example:
  "(2::int) \<le> 5 \<and> length [3, 4, 4 :: int] = 3 \<and>
   PadicInteger_list (map PyInt [3, 4, 4]) 5 3 =
     Inr \<lparr>prime = 5, precision = 3, dtype = 8, digits = [3, 4, 4]\<rparr>"
  using PadicInteger_list_roundtrip [of 5 "[3, 4, 4]" 3] by (simp add: dtype_of_def)

subsection \<open>Primes above \<open>2 ^ 32\<close>\<close>

text \<open>
  Line 16 of the source announces the smallest storage type ``that can represent
  digits 0 to p-1''; line 17 ends the choice with \<^verbatim>\<open>else np.uint32\<close>, whatever the
  prime. The smallest prime above \<open>2 ^ 32 = 4294967296\<close> is \<open>4294967311\<close>; its digits
  from \<open>2 ^ 32\<close> to \<open>p - 1\<close> have no representation in the storage type chosen for it.
  The three evaluations below are at this prime. The host library refuses a Python
  integer that is out of bounds for the array type; earlier releases of it reduced
  the integer modulo \<open>2 ^ 32\<close> and stored \<open>0\<close> here. Neither is the digit \<open>2 ^ 32\<close>.
\<close>

text \<open>
  Claim C4, at a failing input. \<^verbatim>\<open>PadicInteger(4294967296, 4294967311, 1)\<close>: the
  integer is \<open>n = 2 ^ 32 \<ge> 0\<close>, the prime is \<open>p = 2 ^ 32 + 15\<close> and the precision is
  \<open>k = 1\<close>. The little-endian base-\<open>p\<close> expansion of \<open>n mod p ^ k\<close>, zero-padded to
  length \<open>k\<close>, is the single digit \<open>2 ^ 32\<close>, and it stands for \<open>n mod p ^ k\<close>. The
  constructor does not return it: it raises.
\<close>

theorem construct_nonneg_int_above_uint32:
  "PadicInteger_int 4294967296 4294967311 1 = Inl OverflowError \<and>
   padded_expansion 4294967311 1 (4294967296 mod 4294967311 ^ 1) = [4294967296] \<and>
   padic_val 4294967311 [4294967296] = 4294967296 mod 4294967311 ^ 1 \<and>
   dtype_of 4294967311 = 32"
  by code_simp

text \<open>
  Claim C10, at a failing input. \<^verbatim>\<open>PadicInteger(-15, 4294967311, 1)\<close>: the integer
  is negative, \<open>n = - 15\<close>, the prime is \<open>p = 2 ^ 32 + 15\<close> and the precision is
  \<open>k = 1\<close>. With floor division and modulo, \<open>n mod p ^ k = 2 ^ 32\<close>, whose expansion
  is the single digit \<open>2 ^ 32\<close>, in \<open>[0, p - 1]\<close>. The constructor does not return
  it: it raises, for \<open>n\<close> as for \<open>n mod p ^ k\<close>.
\<close>

theorem construct_negative_int_above_uint32:
  "PadicInteger_int (- 15) 4294967311 1 = Inl OverflowError \<and>
   PadicInteger_int (- 15 mod 4294967311 ^ 1) 4294967311 1 = Inl OverflowError \<and>
   - 15 mod 4294967311 ^ 1 = (4294967296 :: int) \<and>
   padded_expansion 4294967311 1 (- 15 mod 4294967311 ^ 1) = [4294967296] \<and>
   (0::int) \<le> 4294967296 \<and> (4294967296::int) \<le> 4294967311 - 1"
  by code_simp

text \<open>
  Claim C7, at a failing input. \<^verbatim>\<open>PadicInteger([4294967296], 4294967311, 1)\<close>: the
  digit sequence \<open>d = [2 ^ 32]\<close> has length exactly \<open>k = 1\<close> and its digit lies in
  \<open>[0, p - 1]\<close> for the prime \<open>p = 2 ^ 32 + 15\<close>. The constructor does not return a
  value whose digits are \<open>d\<close>: it raises.
\<close>

theorem construct_digits_above_uint32:
  "PadicInteger_list [PyInt 4294967296] 4294967311 1 = Inl OverflowError \<and>
   length [PyInt 4294967296] = 1 \<and>
   (0::int) \<le> 4294967296 \<and> (4294967296::int) \<le> 4294967311 - 1 \<and>
   dtype_of 4294967311 = 32"
  by code_simp

section \<open>The worked scenario\<close>

text \<open>
  The values of the example entry point, \<^verbatim>\<open>PadicInteger(123, 5, 10)\<close> and
  \<^verbatim>\<open>PadicInteger(456, 5, 10)\<close>, with their sum, difference and product.
\<close>

lemma documented_scenario:
  "PadicInteger_int 123 5 10 =
     Inr \<lparr>prime = 5, precision = 10, dtype = 8, digits = [3, 4, 4, 0, 0, 0, 0, 0, 0, 0]\<rparr>"
  "PadicInteger_int 456 5 10 =
     Inr \<lparr>prime = 5, precision = 10, dtype = 8, digits = [1, 1, 3, 3, 0, 0, 0, 0, 0, 0]\<rparr>"
  "and_then (PadicInteger_int 123 5 10) (\<lambda>a. and_then (PadicInteger_int 456 5 10) (\<lambda>b. add a b)) =
     Inr \<lparr>prime = 5, precision = 10, dtype = 8, digits = [4, 0, 3, 4, 0, 0, 0, 0, 0, 0]\<rparr>"
  "and_then (PadicInteger_int 123 5 10) (\<lambda>a. and_then (PadicInteger_int 456 5 10) (\<lambda>b. sub b a)) =
     Inr \<lparr>prime = 5, precision = 10, dtype = 8, digits = [3, 1, 3, 2, 0, 0, 0, 0, 0, 0]\<rparr>"
  "and_then (PadicInteger_int 123 5 10) (\<lambda>a. and_then (PadicInteger_int 456 5 10) (\<lambda>b. mul a b)) =
     Inr \<lparr>prime = 5, precision = 20, dtype = 8,
          digits = [3, 2, 3, 3, 4, 2, 3, 0, 0, 0, 0, 0, 0, 0, 0, 0, 0, 0, 0, 0]\<rparr>"
  by code_simp+

section \<open>The operators where the storage type is wide enough\<close>

text \<open>
  On well-formed operands with the same prime \<open>p\<close>, no intermediate value of addition
  or subtraction exceeds \<open>2 * p - 1\<close>, and none of multiplication exceeds \<open>p * p - 1\<close>.
  Where the storage type of width \<open>w\<close> holds these (\<open>2 * p \<le> 2 ^ w\<close>, respectively
  \<open>p * p \<le> 2 ^ w\<close>), the operators return, without raising, the digits of the
  documented algorithms on unbounded integers.
\<close>

lemma digit_or_zero_stores:
  assumes "length (digits x) = precision x"
  shows "\<exists>v. digit_or_zero x i = Inr v \<and> stores (dtype x) v (digit_at (digits x) i)"
  using assms by (simp add: digit_or_zero_def getitem_def digit_at_def stores_def)

lemma digit_at_range:
  assumes "\<forall>d\<in>set ds. 0 \<le> d \<and> d < p" "0 < p"
  shows "0 \<le> digit_at ds i \<and> digit_at ds i < p"
  using assms by (simp add: digit_at_def)

lemma py_add_stores:
  assumes "stores w a x" "stores w b y" "0 \<le> x" "0 \<le> y" "x + y < 2 ^ w"
  shows "\<exists>v. py_add a b = Inr v \<and> stores w v (x + y)"
  using assms by (auto simp: stores_def py_add_def in_bounds_def)

lemma py_mod_stores:
  assumes "stores w v s" "0 \<le> s" "s < 2 ^ w" "0 < p" "p < 2 ^ w"
  shows "\<exists>d. py_mod v (PyInt p) = Inr d \<and> stores w d (s mod p)"
proof -
  have "s mod p < p" using assms(4) by simp
  then have "s mod p < 2 ^ w" using assms(5) by linarith
  moreover have "0 \<le> s mod p" using assms(4) by simp
  ultimately have "0 \<le> s mod p" "s mod p < 2 ^ w" by simp_all
  then show ?thesis using assms by (auto simp: stores_def in_bounds_def)
qed

lemma py_floordiv_stores:
  assumes "stores w v s" "0 \<le> s" "s < 2 ^ w" "0 < p" "p < 2 ^ w"
  shows "\<exists>d. py_floordiv v (PyInt p) = Inr d \<and> stores w d (s div p)"
proof -
  have "0 \<le> s div p" using assms(2,4) by (simp add: pos_imp_zdiv_nonneg_iff)
  moreover have "s div p \<le> s"
  proof (cases "s = 0")
    case True
    then show ?thesis by simp
  next
    case False
    with assms(2) have "0 < s" by simp
    then show ?thesis by (rule int_div_le_self)
  qed
  ultimately have "0 \<le> s div p" "s div p < 2 ^ w" using assms(3) by simp_all
  then show ?thesis using assms by (auto simp: stores_def in_bounds_def)
qed


lemma add_step_stores:
  assumes len: "length (digits a) = precision a" "length (digits b) = precision b"
    and dt: "dtype a = w" "dtype b = w"
    and rng: "\<forall>d\<in>set (digits a). 0 \<le> d \<and> d < p" "\<forall>d\<in>set (digits b). 0 \<le> d \<and> d < p"
    and p: "prime a = p" "0 < p" "2 * p \<le> 2 ^ w"
    and c: "stores w carry c" "0 \<le> c" "c \<le> 1"
  shows "\<exists>d c'. add_step a b i carry = Inr (d, c') \<and>
           stores w d ((digit_at (digits a) i + digit_at (digits b) i + c) mod p) \<and>
           stores w c' ((digit_at (digits a) i + digit_at (digits b) i + c) div p)"
proof -
  let ?x = "digit_at (digits a) i" and ?y = "digit_at (digits b) i"
  have x: "0 \<le> ?x" "?x < p" using digit_at_range [OF rng(1) p(2)] by simp_all
  have y: "0 \<le> ?y" "?y < p" using digit_at_range [OF rng(2) p(2)] by simp_all
  obtain va where va: "digit_or_zero a i = Inr va" "stores w va ?x"
    using digit_or_zero_stores [OF len(1), of i] dt(1) by auto
  obtain vb where vb: "digit_or_zero b i = Inr vb" "stores w vb ?y"
    using digit_or_zero_stores [OF len(2), of i] dt(2) by auto
  have "?x + ?y < 2 ^ w" using x y p(3) by linarith
  then obtain vab where vab: "py_add va vb = Inr vab" "stores w vab (?x + ?y)"
    using py_add_stores [OF va(2) vb(2) x(1) y(1)] by auto
  have s: "0 \<le> ?x + ?y + c" "?x + ?y + c < 2 ^ w" using x y c p(3) by linarith+
  have "0 \<le> ?x + ?y" using x y by simp
  then obtain vs where vs: "py_add vab carry = Inr vs" "stores w vs (?x + ?y + c)"
    using py_add_stores [OF vab(2) c(1) _ c(2)] s(2) by auto
  have pw: "p < 2 ^ w" using p(2,3) by linarith
  obtain d where d: "py_mod vs (PyInt p) = Inr d" "stores w d ((?x + ?y + c) mod p)"
    using py_mod_stores [OF vs(2) s p(2) pw] by auto
  obtain c' where c': "py_floordiv vs (PyInt p) = Inr c'" "stores w c' ((?x + ?y + c) div p)"
    using py_floordiv_stores [OF vs(2) s p(2) pw] by auto
  show ?thesis
    using va(1) vb(1) vab(1) vs(1) d c' p(1) by (simp add: add_step_def)
qed

lemma int_div_less:
  fixes s p n :: int
  assumes "0 < p" "s < p * n"
  shows "s div p < n"
proof -
  have "p * (s div p) \<le> s"
    using mult_div_mod_eq [of p s] pos_mod_sign [OF assms(1), of s] by linarith
  then have "p * (s div p) < p * n" using assms(2) by linarith
  then show ?thesis using assms(1) by (simp add: mult_less_cancel_left_pos)
qed

lemma carry_bound:
  fixes x y c p :: int
  assumes "0 \<le> x" "x < p" "0 \<le> y" "y < p" "0 \<le> c" "c \<le> 1"
  shows "0 \<le> (x + y + c) div p \<and> (x + y + c) div p \<le> 1"
proof -
  have p: "0 < p" using assms by linarith
  have "0 \<le> x + y + c" using assms by simp
  then have lo: "0 \<le> (x + y + c) div p" using p by (simp add: pos_imp_zdiv_nonneg_iff)
  have "x + y + c < 2 * p" using assms by linarith
  then have "(x + y + c) div p < 2" using p by (intro int_div_less) simp_all
  with lo show ?thesis by simp
qed


lemma add_loop_stores:
  assumes len: "length (digits a) = precision a" "length (digits b) = precision b"
    and dt: "dtype a = w" "dtype b = w"
    and rng: "\<forall>d\<in>set (digits a). 0 \<le> d \<and> d < p" "\<forall>d\<in>set (digits b). 0 \<le> d \<and> d < p"
    and p: "prime a = p" "0 < p" "2 * p \<le> 2 ^ w"
  shows "stores w carry c \<Longrightarrow> 0 \<le> c \<Longrightarrow> c \<le> 1 \<Longrightarrow>
         \<exists>rs. add_loop a b is result carry = Inr (result @ rs) \<and>
              list_all2 (stores w) rs (spec_add_digits p (digits a) (digits b) is c)"
proof (induction "is" arbitrary: result carry c)
  case Nil
  then show ?case by simp
next
  case (Cons i "is")
  let ?s = "digit_at (digits a) i + digit_at (digits b) i + c"
  obtain d c' where step: "add_step a b i carry = Inr (d, c')"
    "stores w d (?s mod p)" "stores w c' (?s div p)"
    using add_step_stores [OF len dt rng p Cons.prems] by blast
  have x: "0 \<le> digit_at (digits a) i" "digit_at (digits a) i < p"
    using digit_at_range [OF rng(1) p(2)] by simp_all
  have y: "0 \<le> digit_at (digits b) i" "digit_at (digits b) i < p"
    using digit_at_range [OF rng(2) p(2)] by simp_all
  have cb: "0 \<le> ?s div p" "?s div p \<le> 1"
    using carry_bound [OF x y Cons.prems(2,3)] by simp_all
  obtain rs where rs: "add_loop a b is (result @ [d]) c' = Inr ((result @ [d]) @ rs)"
    "list_all2 (stores w) rs (spec_add_digits p (digits a) (digits b) is (?s div p))"
    using Cons.IH [OF step(3) cb] by blast
  show ?case
    using step(1,2) rs by (intro exI [of _ "d # rs"]) simp
qed

lemma np_array_stores:
  assumes "list_all2 (stores w) rs xs" "\<forall>x\<in>set xs. 0 \<le> x \<and> x < 2 ^ w"
  shows "np_array w rs = Inr xs"
  using assms
proof (induction rs xs rule: list_all2_induct)
  case Nil
  then show ?case by simp
next
  case (Cons r rs x xs)
  then show ?case by (auto simp: stores_def in_bounds_def)
qed

lemma spec_add_digits_range:
  assumes "0 < p"
  shows "\<forall>d\<in>set (spec_add_digits p as bs is c). 0 \<le> d \<and> d < p"
  using assms by (induction "is" arbitrary: c) simp_all

lemma length_spec_add_digits: "length (spec_add_digits p as bs is c) = length is"
  by (induction "is" arbitrary: c) simp_all

lemma add_correct:
  assumes "well_formed a" "well_formed b" "prime a = prime b" "0 < prime a"
    and "2 * prime a \<le> 2 ^ dtype_of (prime a)"
  shows "add a b =
     Inr \<lparr>prime = prime a, precision = max (precision a) (precision b),
          dtype = dtype_of (prime a),
          digits = spec_add (prime a) (precision a) (precision b) (digits a) (digits b)\<rparr>"
proof -
  let ?p = "prime a" and ?w = "dtype_of (prime a)"
  let ?n = "max (precision a) (precision b)"
  let ?ds = "spec_add ?p (precision a) (precision b) (digits a) (digits b)"
  have wa: "length (digits a) = precision a" "dtype a = ?w"
    "\<forall>d\<in>set (digits a). 0 \<le> d \<and> d < ?p"
    using assms(1) by (simp_all add: well_formed_def)
  have wb: "length (digits b) = precision b" "dtype b = ?w"
    "\<forall>d\<in>set (digits b). 0 \<le> d \<and> d < ?p"
    using assms(2,3) by (simp_all add: well_formed_def)
  obtain rs where rs: "add_loop a b [0 ..< ?n] [] (PyInt 0) = Inr ([] @ rs)"
    "list_all2 (stores ?w) rs (spec_add_digits ?p (digits a) (digits b) [0 ..< ?n] 0)"
    using add_loop_stores [OF wa(1) wb(1) wa(2) wb(2) wa(3) wb(3) refl assms(4,5),
        of "PyInt 0" 0 "[0 ..< ?n]" "[]"]
    by (auto simp: stores_def)
  have len: "length rs = ?n"
    using list_all2_lengthD [OF rs(2)] by (simp add: length_spec_add_digits)
  have "\<forall>x\<in>set ?ds. 0 \<le> x \<and> x < 2 ^ ?w"
  proof
    fix x assume "x \<in> set ?ds"
    then have "0 \<le> x \<and> x < ?p"
      using spec_add_digits_range [OF assms(4)] by (simp add: spec_add_def)
    then show "0 \<le> x \<and> x < 2 ^ ?w" using assms(5) by linarith
  qed
  then have "np_array ?w rs = Inr ?ds"
    using np_array_stores [of ?w rs ?ds] rs(2) by (simp add: spec_add_def)
  then show ?thesis
    using rs(1) len assms(3) by (simp add: add_def PadicInteger_list_def)
qed


lemma py_sub_wraps:
  assumes "stores w a x" "stores w b y" "0 \<le> x" "x < 2 ^ w" "0 \<le> y" "y < 2 ^ w"
  shows "\<exists>v. py_sub a b = Inr v \<and> wraps w v (x - y)"
  using assms by (auto simp: stores_def wraps_def py_sub_def in_bounds_def)

lemma py_sub_wraps_PyInt:
  assumes "wraps w v z" "0 \<le> c" "c < 2 ^ w"
  shows "\<exists>v'. py_sub v (PyInt c) = Inr v' \<and> wraps w v' (z - c)"
  using assms by (auto simp: wraps_def py_sub_def in_bounds_def mod_diff_left_eq)

lemma py_add_wraps_PyInt:
  assumes "wraps w v z" "0 \<le> c" "c < 2 ^ w"
  shows "\<exists>v'. py_add v (PyInt c) = Inr v' \<and> wraps w v' (z + c)"
  using assms by (auto simp: wraps_def py_add_def in_bounds_def mod_add_left_eq)

lemma wraps_stores:
  assumes "wraps w v s" "0 \<le> s" "s < 2 ^ w"
  shows "stores w v s"
  using assms by (auto simp: wraps_def stores_def)

lemma stores_py_value: "stores w v s \<Longrightarrow> py_value v = s"
  by (auto simp: stores_def)

lemma sub_step_stores:
  assumes len: "length (digits a) = precision a" "length (digits b) = precision b"
    and dt: "dtype a = w" "dtype b = w"
    and rng: "\<forall>d\<in>set (digits a). 0 \<le> d \<and> d < p" "\<forall>d\<in>set (digits b). 0 \<le> d \<and> d < p"
    and p: "prime a = p" "0 < p" "2 * p \<le> 2 ^ w"
    and c: "0 \<le> c" "c \<le> 1"
  shows "\<exists>d. sub_step a b i (PyInt c) =
             Inr (d, PyInt (if digit_at (digits a) i - digit_at (digits b) i - c + p < p
                            then 1 else 0)) \<and>
           stores w d ((digit_at (digits a) i - digit_at (digits b) i - c + p) mod p)"
proof -
  let ?x = "digit_at (digits a) i" and ?y = "digit_at (digits b) i"
  have pw: "p < 2 ^ w" using p(2,3) by linarith
  have x: "0 \<le> ?x" "?x < p" using digit_at_range [OF rng(1) p(2)] by simp_all
  have y: "0 \<le> ?y" "?y < p" using digit_at_range [OF rng(2) p(2)] by simp_all
  have xw: "?x < 2 ^ w" and yw: "?y < 2 ^ w" using x y pw by linarith+
  have cw: "c < 2 ^ w" using c pw p(2) by linarith
  obtain va where va: "digit_or_zero a i = Inr va" "stores w va ?x"
    using digit_or_zero_stores [OF len(1), of i] dt(1) by auto
  obtain vb where vb: "digit_or_zero b i = Inr vb" "stores w vb ?y"
    using digit_or_zero_stores [OF len(2), of i] dt(2) by auto
  obtain vab where vab: "py_sub va vb = Inr vab" "wraps w vab (?x - ?y)"
    using py_sub_wraps [OF va(2) vb(2) x(1) xw y(1) yw] by auto
  obtain vabb where vabb: "py_sub vab (PyInt c) = Inr vabb" "wraps w vabb (?x - ?y - c)"
    using py_sub_wraps_PyInt [OF vab(2) c(1) cw] by auto
  obtain vd where vd: "py_add vabb (PyInt p) = Inr vd" "wraps w vd (?x - ?y - c + p)"
    using py_add_wraps_PyInt [OF vabb(2) _ pw] p(2) by auto
  have s: "0 \<le> ?x - ?y - c + p" "?x - ?y - c + p < 2 ^ w" using x y c p(3) by linarith+
  have st: "stores w vd (?x - ?y - c + p)" by (rule wraps_stores [OF vd(2) s])
  obtain d where d: "py_mod vd (PyInt p) = Inr d" "stores w d ((?x - ?y - c + p) mod p)"
    using py_mod_stores [OF st s p(2) pw] by auto
  have lt: "py_lt vd (PyInt p) \<longleftrightarrow> ?x - ?y - c + p < p"
    using stores_py_value [OF st] by (simp add: py_lt_def)
  show ?thesis
    using va(1) vb(1) vab(1) vabb(1) vd(1) d lt p(1) by (simp add: sub_step_def)
qed

lemma sub_loop_stores:
  assumes len: "length (digits a) = precision a" "length (digits b) = precision b"
    and dt: "dtype a = w" "dtype b = w"
    and rng: "\<forall>d\<in>set (digits a). 0 \<le> d \<and> d < p" "\<forall>d\<in>set (digits b). 0 \<le> d \<and> d < p"
    and p: "prime a = p" "0 < p" "2 * p \<le> 2 ^ w"
  shows "0 \<le> c \<Longrightarrow> c \<le> 1 \<Longrightarrow>
         \<exists>rs. sub_loop a b is result (PyInt c) = Inr (result @ rs) \<and>
              list_all2 (stores w) rs (spec_sub_digits p (digits a) (digits b) is c)"
proof (induction "is" arbitrary: result c)
  case Nil
  then show ?case by simp
next
  case (Cons i "is")
  let ?s = "digit_at (digits a) i - digit_at (digits b) i - c + p"
  let ?c' = "if ?s < p then 1 else 0 :: int"
  obtain d where step: "sub_step a b i (PyInt c) = Inr (d, PyInt ?c')"
    "stores w d (?s mod p)"
    using sub_step_stores [OF len dt rng p Cons.prems] by blast
  have cb: "0 \<le> ?c'" "?c' \<le> 1" by simp_all
  obtain rs where rs: "sub_loop a b is (result @ [d]) (PyInt ?c') = Inr ((result @ [d]) @ rs)"
    "list_all2 (stores w) rs (spec_sub_digits p (digits a) (digits b) is ?c')"
    using Cons.IH [OF cb] by blast
  show ?case
    using step rs by (intro exI [of _ "d # rs"]) simp
qed

lemma spec_sub_digits_range:
  assumes "0 < p"
  shows "\<forall>d\<in>set (spec_sub_digits p as bs is c). 0 \<le> d \<and> d < p"
  using assms by (induction "is" arbitrary: c) simp_all

lemma length_spec_sub_digits: "length (spec_sub_digits p as bs is c) = length is"
  by (induction "is" arbitrary: c) simp_all

lemma sub_correct:
  assumes "well_formed a" "well_formed b" "prime a = prime b" "0 < prime a"
    and "2 * prime a \<le> 2 ^ dtype_of (prime a)"
  shows "sub a b =
     Inr \<lparr>prime = prime a, precision = max (precision a) (precision b),
          dtype = dtype_of (prime a),
          digits = spec_sub (prime a) (precision a) (precision b) (digits a) (digits b)\<rparr>"
proof -
  let ?p = "prime a" and ?w = "dtype_of (prime a)"
  let ?n = "max (precision a) (precision b)"
  let ?ds = "spec_sub ?p (precision a) (precision b) (digits a) (digits b)"
  have wa: "length (digits a) = precision a" "dtype a = ?w"
    "\<forall>d\<in>set (digits a). 0 \<le> d \<and> d < ?p"
    using assms(1) by (simp_all add: well_formed_def)
  have wb: "length (digits b) = precision b" "dtype b = ?w"
    "\<forall>d\<in>set (digits b). 0 \<le> d \<and> d < ?p"
    using assms(2,3) by (simp_all add: well_formed_def)
  obtain rs where rs: "sub_loop a b [0 ..< ?n] [] (PyInt 0) = Inr ([] @ rs)"
    "list_all2 (stores ?w) rs (spec_sub_digits ?p (digits a) (digits b) [0 ..< ?n] 0)"
    using sub_loop_stores [OF wa(1) wb(1) wa(2) wb(2) wa(3) wb(3) refl assms(4,5),
        of 0 "[0 ..< ?n]" "[]"]
    by auto
  have len: "length rs = ?n"
    using list_all2_lengthD [OF rs(2)] by (simp add: length_spec_sub_digits)
  have "\<forall>x\<in>set ?ds. 0 \<le> x \<and> x < 2 ^ ?w"
  proof
    fix x assume "x \<in> set ?ds"
    then have "0 \<le> x \<and> x < ?p"
      using spec_sub_digits_range [OF assms(4)] by (simp add: spec_sub_def)
    then show "0 \<le> x \<and> x < 2 ^ ?w" using assms(5) by linarith
  qed
  then have "np_array ?w rs = Inr ?ds"
    using np_array_stores [of ?w rs ?ds] rs(2) by (simp add: spec_sub_def)
  then show ?thesis
    using rs(1) len assms(3) by (simp add: sub_def PadicInteger_list_def)
qed


lemma py_mul_stores:
  assumes "stores w a x" "stores w b y" "0 \<le> x" "0 \<le> y" "x < 2 ^ w" "y < 2 ^ w"
    "x * y < 2 ^ w"
  shows "\<exists>v. py_mul a b = Inr v \<and> stores w v (x * y)"
  using assms by (auto simp: stores_def py_mul_def in_bounds_def)

lemma product_bound:
  fixes r x y c p :: int
  assumes "0 \<le> r" "r < p" "0 \<le> x" "x < p" "0 \<le> y" "y < p" "0 \<le> c" "c < p"
  shows "x * y \<le> p * p - 2 * p + 1" "r + x * y + c < p * p"
proof -
  have "x * y \<le> (p - 1) * (p - 1)"
    using assms by (intro mult_mono) simp_all
  then show *: "x * y \<le> p * p - 2 * p + 1" by (simp add: algebra_simps)
  show "r + x * y + c < p * p" using * assms by linarith
qed

lemma mul_step_stores:
  assumes rel: "list_all2 (stores w) rs xs" "\<forall>x\<in>set xs. 0 \<le> x \<and> x < p"
    and c: "stores w carry c" "0 \<le> c" "c < p"
    and dt: "dtype a = w" "dtype b = w"
    and rng: "\<forall>d\<in>set (digits a). 0 \<le> d \<and> d < p" "\<forall>d\<in>set (digits b). 0 \<le> d \<and> d < p"
    and p: "prime a = p" "2 \<le> p" "p * p \<le> 2 ^ w"
    and idx: "i < length (digits a)" "j < length (digits b)" "i + j < length rs"
  shows "\<exists>rs' c'. mul_step a b i j (rs, carry) = Inr (rs', c') \<and>
           list_all2 (stores w) rs'
             (xs[i + j := (digit_at xs (i + j) + digit_at (digits a) i * digit_at (digits b) j + c)
                 mod p]) \<and>
           stores w c'
             ((digit_at xs (i + j) + digit_at (digits a) i * digit_at (digits b) j + c) div p)"
proof -
  let ?r = "digit_at xs (i + j)" and ?x = "digit_at (digits a) i"
    and ?y = "digit_at (digits b) j"
  let ?t = "?r + ?x * ?y + c"
  have p0: "0 < p" using p(2) by simp
  have "2 * p \<le> p * p" using p(2) by (intro mult_right_mono) simp_all
  then have pw: "p < 2 ^ w" using p(2,3) by linarith
  have lenx: "length xs = length rs" using list_all2_lengthD [OF rel(1)] by simp
  have r: "0 \<le> ?r" "?r < p" using digit_at_range [OF rel(2) p0] by simp_all
  have x: "0 \<le> ?x" "?x < p" using digit_at_range [OF rng(1) p0] by simp_all
  have y: "0 \<le> ?y" "?y < p" using digit_at_range [OF rng(2) p0] by simp_all
  have xy: "0 \<le> ?x * ?y" using x y by simp
  have b: "?x * ?y \<le> p * p - 2 * p + 1" "?t < p * p"
    using product_bound [OF r x y c(2,3)] by simp_all
  have xyw: "?x * ?y < 2 ^ w" using b(1) p(2,3) by linarith
  have tw: "0 \<le> ?t" "?t < 2 ^ w" using r xy c(2) b(2) p(3) by linarith+
  have g: "list_get rs (i + j) = Inr (rs ! (i + j))" using idx(3) by (simp add: list_get_def)
  have gs: "stores w (rs ! (i + j)) ?r"
    using list_all2_nthD [OF rel(1) idx(3)] idx(3) lenx by (simp add: digit_at_def)
  have ga: "getitem a i = Inr (NpUInt w (digits a ! i))" "stores w (NpUInt w (digits a ! i)) ?x"
    using idx(1) dt(1) by (simp_all add: getitem_def digit_at_def stores_def)
  have gb: "getitem b j = Inr (NpUInt w (digits b ! j))" "stores w (NpUInt w (digits b ! j)) ?y"
    using idx(2) dt(2) by (simp_all add: getitem_def digit_at_def stores_def)
  have xw: "?x < 2 ^ w" and yw: "?y < 2 ^ w" using x y pw by linarith+
  obtain vab where vab: "py_mul (NpUInt w (digits a ! i)) (NpUInt w (digits b ! j)) = Inr vab"
    "stores w vab (?x * ?y)"
    using py_mul_stores [OF ga(2) gb(2) x(1) y(1) xw yw xyw] by auto
  have "?r + ?x * ?y < 2 ^ w" using tw(2) c(2) by linarith
  then obtain vrab where vrab: "py_add (rs ! (i + j)) vab = Inr vrab" "stores w vrab (?r + ?x * ?y)"
    using py_add_stores [OF gs vab(2) r(1) xy] by auto
  have "0 \<le> ?r + ?x * ?y" using r xy by simp
  then obtain vt where vt: "py_add vrab carry = Inr vt" "stores w vt ?t"
    using py_add_stores [OF vrab(2) c(1) _ c(2)] tw(2) by auto
  obtain d where d: "py_mod vt (PyInt p) = Inr d" "stores w d (?t mod p)"
    using py_mod_stores [OF vt(2) tw p0 pw] by auto
  obtain c' where c': "py_floordiv vt (PyInt p) = Inr c'" "stores w c' (?t div p)"
    using py_floordiv_stores [OF vt(2) tw p0 pw] by auto
  have s: "list_set rs (i + j) d = Inr (rs[i + j := d])" using idx(3) by (simp add: list_set_def)
  have "list_all2 (stores w) (rs[i + j := d]) (xs[i + j := ?t mod p])"
    using rel(1) d(2) by (rule list_all2_update_cong)
  then show ?thesis
    using g ga(1) gb(1) vab(1) vrab(1) vt(1) d(1) s c' p(1) by (simp add: mul_step_def)
qed


lemma update_range:
  fixes xs :: "int list"
  assumes "\<forall>x\<in>set xs. 0 \<le> x \<and> x < p" "0 \<le> v" "v < p"
  shows "\<forall>x\<in>set (xs[k := v]). 0 \<le> x \<and> x < p"
  using assms set_update_subset_insert [of xs k v] by auto

lemma mul_digit_bounds:
  fixes r x y c p :: int
  assumes "0 \<le> r" "r < p" "0 \<le> x" "x < p" "0 \<le> y" "y < p" "0 \<le> c" "c < p"
  shows "0 \<le> (r + x * y + c) mod p" "(r + x * y + c) mod p < p"
    "0 \<le> (r + x * y + c) div p" "(r + x * y + c) div p < p"
proof -
  have p: "0 < p" using assms by linarith
  show "0 \<le> (r + x * y + c) mod p" "(r + x * y + c) mod p < p" using p by simp_all
  have "0 \<le> r + x * y + c" using assms by simp
  then show "0 \<le> (r + x * y + c) div p" using p by (simp add: pos_imp_zdiv_nonneg_iff)
  show "(r + x * y + c) div p < p"
    using product_bound(2) [OF assms] p by (intro int_div_less) simp_all
qed

lemma mul_inner_stores:
  assumes dt: "dtype a = w" "dtype b = w"
    and rng: "\<forall>d\<in>set (digits a). 0 \<le> d \<and> d < p" "\<forall>d\<in>set (digits b). 0 \<le> d \<and> d < p"
    and p: "prime a = p" "2 \<le> p" "p * p \<le> 2 ^ w"
    and i: "i < length (digits a)"
  shows "list_all2 (stores w) rs xs \<Longrightarrow> \<forall>x\<in>set xs. 0 \<le> x \<and> x < p \<Longrightarrow>
         stores w carry c \<Longrightarrow> 0 \<le> c \<Longrightarrow> c < p \<Longrightarrow>
         \<forall>j\<in>set js. j < length (digits b) \<and> i + j < length rs \<Longrightarrow>
         \<exists>rs' c'. mul_inner a b i js (rs, carry) = Inr (rs', c') \<and>
           list_all2 (stores w) rs' (fst (spec_mul_inner p (digits a) (digits b) i js (xs, c))) \<and>
           stores w c' (snd (spec_mul_inner p (digits a) (digits b) i js (xs, c))) \<and>
           (\<forall>x\<in>set (fst (spec_mul_inner p (digits a) (digits b) i js (xs, c))). 0 \<le> x \<and> x < p) \<and>
           0 \<le> snd (spec_mul_inner p (digits a) (digits b) i js (xs, c)) \<and>
           snd (spec_mul_inner p (digits a) (digits b) i js (xs, c)) < p"
proof (induction js arbitrary: rs xs carry c)
  case Nil
  then show ?case by simp
next
  case (Cons j js)
  let ?t = "digit_at xs (i + j) + digit_at (digits a) i * digit_at (digits b) j + c"
  have p0: "0 < p" using p(2) by simp
  have idx: "j < length (digits b)" "i + j < length rs" using Cons.prems(6) by simp_all
  obtain rs' c' where step: "mul_step a b i j (rs, carry) = Inr (rs', c')"
    "list_all2 (stores w) rs' (xs[i + j := ?t mod p])" "stores w c' (?t div p)"
    using mul_step_stores [OF Cons.prems(1,2,3,4,5) dt rng p i idx] by blast
  have r: "0 \<le> digit_at xs (i + j)" "digit_at xs (i + j) < p"
    using digit_at_range [OF Cons.prems(2) p0] by simp_all
  have x: "0 \<le> digit_at (digits a) i" "digit_at (digits a) i < p"
    using digit_at_range [OF rng(1) p0] by simp_all
  have y: "0 \<le> digit_at (digits b) j" "digit_at (digits b) j < p"
    using digit_at_range [OF rng(2) p0] by simp_all
  note b = mul_digit_bounds [OF r x y Cons.prems(4,5)]
  have xr: "\<forall>x\<in>set (xs[i + j := ?t mod p]). 0 \<le> x \<and> x < p"
    by (rule update_range [OF Cons.prems(2) b(1,2)])
  have len: "length rs' = length rs"
    using list_all2_lengthD [OF step(2)] list_all2_lengthD [OF Cons.prems(1)] by simp
  have js: "\<forall>j\<in>set js. j < length (digits b) \<and> i + j < length rs'"
    using Cons.prems(6) len by simp
  show ?case
    using Cons.IH [OF step(2) xr step(3) b(3,4) js] step(1) by simp
qed

lemma length_spec_mul_inner:
  "length (fst (spec_mul_inner p as bs i js st)) = length (fst st)"
  by (induction js arbitrary: st) simp_all

lemma mul_row_stores:
  assumes dt: "dtype a = w" "dtype b = w"
    and rng: "\<forall>d\<in>set (digits a). 0 \<le> d \<and> d < p" "\<forall>d\<in>set (digits b). 0 \<le> d \<and> d < p"
    and p: "prime a = p" "2 \<le> p" "p * p \<le> 2 ^ w"
    and len: "length (digits b) = precision b"
    and i: "i < length (digits a)" "i + precision b < length rs"
    and rel: "list_all2 (stores w) rs xs" "\<forall>x\<in>set xs. 0 \<le> x \<and> x < p"
  shows "\<exists>rs'. mul_row a b i rs = Inr rs' \<and>
           list_all2 (stores w) rs' (spec_mul_row p (precision b) (digits a) (digits b) i xs) \<and>
           (\<forall>x\<in>set (spec_mul_row p (precision b) (digits a) (digits b) i xs). 0 \<le> x \<and> x < p)"
proof -
  let ?R = "spec_mul_inner p (digits a) (digits b) i [0 ..< precision b] (xs, 0)"
  have js: "\<forall>j\<in>set [0 ..< precision b]. j < length (digits b) \<and> i + j < length rs"
    using len i(2) by simp
  have p0: "(0::int) < p" using p(2) by simp
  obtain rs' c' where inner:
    "mul_inner a b i [0 ..< precision b] (rs, PyInt 0) = Inr (rs', c')"
    "list_all2 (stores w) rs' (fst ?R)" "stores w c' (snd ?R)"
    "\<forall>x\<in>set (fst ?R). 0 \<le> x \<and> x < p" "0 \<le> snd ?R" "snd ?R < p"
    using mul_inner_stores [OF dt rng p i(1) rel _ _ p0 js, of "PyInt 0"]
    by (auto simp: stores_def)
  have l: "length rs' = length rs"
    using list_all2_lengthD [OF inner(2)] list_all2_lengthD [OF rel(1)]
    by (simp add: length_spec_mul_inner)
  have set: "list_set rs' (i + precision b) c' = Inr (rs'[i + precision b := c'])"
    using i(2) l by (simp add: list_set_def)
  have "list_all2 (stores w) (rs'[i + precision b := c']) ((fst ?R)[i + precision b := snd ?R])"
    using inner(2,3) by (rule list_all2_update_cong)
  moreover have "\<forall>x\<in>set ((fst ?R)[i + precision b := snd ?R]). 0 \<le> x \<and> x < p"
    by (rule update_range [OF inner(4,5,6)])
  ultimately show ?thesis
    using inner(1) set by (simp add: mul_row_def spec_mul_row_def)
qed

lemma length_spec_mul_row:
  "length (spec_mul_row p kb as bs i xs) = length xs"
  by (simp add: spec_mul_row_def length_spec_mul_inner)

lemma mul_outer_stores:
  assumes dt: "dtype a = w" "dtype b = w"
    and rng: "\<forall>d\<in>set (digits a). 0 \<le> d \<and> d < p" "\<forall>d\<in>set (digits b). 0 \<le> d \<and> d < p"
    and p: "prime a = p" "2 \<le> p" "p * p \<le> 2 ^ w"
    and len: "length (digits b) = precision b"
  shows "list_all2 (stores w) rs xs \<Longrightarrow> \<forall>x\<in>set xs. 0 \<le> x \<and> x < p \<Longrightarrow>
         \<forall>i\<in>set is. i < length (digits a) \<and> i + precision b < length rs \<Longrightarrow>
         \<exists>rs'. mul_outer a b is rs = Inr rs' \<and>
           list_all2 (stores w) rs' (spec_mul_outer p (precision b) (digits a) (digits b) is xs) \<and>
           (\<forall>x\<in>set (spec_mul_outer p (precision b) (digits a) (digits b) is xs). 0 \<le> x \<and> x < p)"
proof (induction "is" arbitrary: rs xs)
  case Nil
  then show ?case by simp
next
  case (Cons i "is")
  have i: "i < length (digits a)" "i + precision b < length rs" using Cons.prems(3) by simp_all
  obtain rs' where row: "mul_row a b i rs = Inr rs'"
    "list_all2 (stores w) rs' (spec_mul_row p (precision b) (digits a) (digits b) i xs)"
    "\<forall>x\<in>set (spec_mul_row p (precision b) (digits a) (digits b) i xs). 0 \<le> x \<and> x < p"
    using mul_row_stores [OF dt rng p len i Cons.prems(1,2)] by blast
  have l: "length rs' = length rs"
    using list_all2_lengthD [OF row(2)] list_all2_lengthD [OF Cons.prems(1)]
    by (simp add: length_spec_mul_row)
  have "\<forall>i\<in>set is. i < length (digits a) \<and> i + precision b < length rs'"
    using Cons.prems(3) l by simp
  from Cons.IH [OF row(2,3) this] row(1) show ?case by simp
qed

lemma length_spec_mul_outer:
  "length (spec_mul_outer p kb as bs is xs) = length xs"
  by (induction "is" arbitrary: xs) (simp_all add: length_spec_mul_row)

lemma length_spec_mul: "length (spec_mul p ka kb as bs) = ka + kb"
  by (simp add: spec_mul_def length_spec_mul_outer)

lemma mul_correct:
  assumes "well_formed a" "well_formed b" "prime a = prime b" "2 \<le> prime a"
    and "prime a * prime a \<le> 2 ^ dtype_of (prime a)"
  shows "mul a b =
     Inr \<lparr>prime = prime a, precision = precision a + precision b,
          dtype = dtype_of (prime a),
          digits = spec_mul (prime a) (precision a) (precision b) (digits a) (digits b)\<rparr>"
proof -
  let ?p = "prime a" and ?w = "dtype_of (prime a)"
  let ?n = "precision a + precision b"
  let ?ds = "spec_mul ?p (precision a) (precision b) (digits a) (digits b)"
  have wa: "length (digits a) = precision a" "dtype a = ?w"
    "\<forall>d\<in>set (digits a). 0 \<le> d \<and> d < ?p"
    using assms(1) by (simp_all add: well_formed_def)
  have wb: "length (digits b) = precision b" "dtype b = ?w"
    "\<forall>d\<in>set (digits b). 0 \<le> d \<and> d < ?p"
    using assms(2,3) by (simp_all add: well_formed_def)
  have init: "list_all2 (stores ?w) (replicate ?n (PyInt 0)) (replicate ?n 0)"
    by (simp add: list_all2_conv_all_nth stores_def)
  have init_range: "\<forall>x\<in>set (replicate ?n (0::int)). 0 \<le> x \<and> x < ?p"
    using assms(4) by simp
  have idx: "\<forall>i\<in>set [0 ..< precision a].
      i < length (digits a) \<and> i + precision b < length (replicate ?n (PyInt 0))"
    using wa(1) by simp
  obtain rs where rs: "mul_outer a b [0 ..< precision a] (replicate ?n (PyInt 0)) = Inr rs"
    "list_all2 (stores ?w) rs ?ds" "\<forall>x\<in>set ?ds. 0 \<le> x \<and> x < ?p"
    using mul_outer_stores [OF wa(2) wb(2) wa(3) wb(3) refl assms(4,5) wb(1) init init_range idx]
    by (auto simp: spec_mul_def)
  have "2 * ?p \<le> ?p * ?p" using assms(4) by (intro mult_right_mono) simp_all
  then have pw: "?p < 2 ^ ?w" using assms(4,5) by linarith
  have "\<forall>x\<in>set ?ds. 0 \<le> x \<and> x < 2 ^ ?w"
  proof
    fix x assume "x \<in> set ?ds"
    with rs(3) have "0 \<le> x \<and> x < ?p" by blast
    then show "0 \<le> x \<and> x < 2 ^ ?w" using pw by linarith
  qed
  then have arr: "np_array ?w rs = Inr ?ds" using np_array_stores [OF rs(2)] by simp
  have "length rs = ?n"
    using list_all2_lengthD [OF rs(2)] by (simp add: length_spec_mul)
  then show ?thesis
    using rs(1) arr assms(3) by (simp add: mul_def PadicInteger_list_def)
qed

section \<open>What the documented algorithms compute\<close>

text \<open>
  The digits of the documented addition stand for the sum of the operands modulo
  \<open>p ^ max ka kb\<close>, those of the documented subtraction for the difference modulo
  \<open>p ^ max ka kb\<close> (for digits in range), and those of the documented multiplication
  for the exact product.
\<close>

lemma spec_add_digits_value:
  "\<exists>q. padic_val p (spec_add_digits p as bs is c) + p ^ length is * q =
       padic_val p (map (digit_at as) is) + padic_val p (map (digit_at bs) is) + c"
proof (induction "is" arbitrary: c)
  case Nil
  show ?case by simp
next
  case (Cons i "is")
  let ?s = "digit_at as i + digit_at bs i + c"
  obtain q where q:
    "padic_val p (spec_add_digits p as bs is (?s div p)) + p ^ length is * q =
       padic_val p (map (digit_at as) is) + padic_val p (map (digit_at bs) is) + ?s div p"
    using Cons.IH [of "?s div p"] by blast
  have s: "?s mod p + p * (?s div p) = ?s" by simp
  have "padic_val p (spec_add_digits p as bs (i # is) c) + p ^ length (i # is) * q =
        ?s mod p + p * (padic_val p (spec_add_digits p as bs is (?s div p)) + p ^ length is * q)"
    by (simp add: algebra_simps)
  also have "\<dots> = ?s mod p + p * (?s div p) +
        p * (padic_val p (map (digit_at as) is) + padic_val p (map (digit_at bs) is))"
    by (simp only: q) (simp add: algebra_simps)
  also have "\<dots> = padic_val p (map (digit_at as) (i # is)) +
        padic_val p (map (digit_at bs) (i # is)) + c"
    by (simp only: s) (simp add: algebra_simps)
  finally show ?case by blast
qed

lemma padic_val_bounds:
  assumes "0 < p" "\<forall>d\<in>set ds. 0 \<le> d \<and> d < p"
  shows "0 \<le> padic_val p ds \<and> padic_val p ds < p ^ length ds"
  using assms(2)
proof (induction ds)
  case Nil
  show ?case by simp
next
  case (Cons d ds)
  then have ih: "0 \<le> padic_val p ds" "padic_val p ds + 1 \<le> p ^ length ds" by simp_all
  have d: "0 \<le> d" "d < p" using Cons.prems by simp_all
  have "p * (padic_val p ds + 1) \<le> p * p ^ length ds"
    using ih(2) assms(1) by (intro mult_left_mono) simp_all
  then have "d + p * padic_val p ds < p * p ^ length ds"
    using d by (simp add: algebra_simps)
  moreover have "0 \<le> p * padic_val p ds" using ih(1) assms(1) by simp
  ultimately show ?case using d by simp
qed

lemma map_digit_at:
  assumes "length xs \<le> n"
  shows "map (digit_at xs) [0 ..< n] = xs @ replicate (n - length xs) 0"
  using assms by (intro nth_equalityI) (auto simp: digit_at_def nth_append)

lemma padic_val_map_digit_at:
  assumes "length xs \<le> n"
  shows "padic_val p (map (digit_at xs) [0 ..< n]) = padic_val p xs"
  by (simp add: map_digit_at [OF assms] padic_val_append_zeros)

lemma spec_add_value:
  assumes "0 < p" "length as = ka" "length bs = kb"
  shows "padic_val p (spec_add p ka kb as bs) =
         (padic_val p as + padic_val p bs) mod p ^ max ka kb"
proof -
  let ?n = "max ka kb"
  let ?r = "spec_add_digits p as bs [0 ..< ?n] 0"
  obtain q where q: "padic_val p ?r + p ^ ?n * q = padic_val p as + padic_val p bs"
    using spec_add_digits_value [of p as bs "[0 ..< ?n]" 0] assms(2,3)
    by (auto simp: padic_val_map_digit_at)
  have "0 \<le> padic_val p ?r \<and> padic_val p ?r < p ^ length ?r"
    by (rule padic_val_bounds [OF assms(1) spec_add_digits_range [OF assms(1)]])
  then have b: "0 \<le> padic_val p ?r" "padic_val p ?r < p ^ ?n"
    by (simp_all add: length_spec_add_digits)
  have "(padic_val p as + padic_val p bs) mod p ^ ?n = (padic_val p ?r + p ^ ?n * q) mod p ^ ?n"
    using q by simp
  also have "\<dots> = padic_val p ?r mod p ^ ?n" by simp
  also have "\<dots> = padic_val p ?r" using b by simp
  finally show ?thesis by (simp add: spec_add_def)
qed

lemma borrow_step:
  fixes s p :: int
  assumes "0 \<le> s" "s < 2 * p"
  shows "s mod p = s - p * (1 - (if s < p then 1 else 0))"
proof (cases "s < p")
  case True
  then show ?thesis using assms(1) by simp
next
  case False
  have "s mod p = (s - p) mod p" by simp
  also have "\<dots> = s - p" using False assms(2) by (intro mod_pos_pos_trivial) simp_all
  finally show ?thesis using False by simp
qed

lemma spec_sub_digits_value:
  assumes "0 < p" "\<forall>d\<in>set as. 0 \<le> d \<and> d < p" "\<forall>d\<in>set bs. 0 \<le> d \<and> d < p"
  shows "0 \<le> c \<Longrightarrow> c \<le> 1 \<Longrightarrow>
         \<exists>q. padic_val p (spec_sub_digits p as bs is c) =
           padic_val p (map (digit_at as) is) - padic_val p (map (digit_at bs) is) - c +
           p ^ length is * q"
proof (induction "is" arbitrary: c)
  case Nil
  show ?case using exI [of _ c] by simp
next
  case (Cons i "is")
  let ?s = "digit_at as i - digit_at bs i - c + p"
  let ?c' = "if ?s < p then 1 else 0 :: int"
  have x: "0 \<le> digit_at as i" "digit_at as i < p"
    using digit_at_range [OF assms(2,1)] by simp_all
  have y: "0 \<le> digit_at bs i" "digit_at bs i < p"
    using digit_at_range [OF assms(3,1)] by simp_all
  have s: "0 \<le> ?s" "?s < 2 * p" using x y Cons.prems by linarith+
  have m: "?s mod p = ?s - p * (1 - ?c')" by (rule borrow_step [OF s])
  have cb: "0 \<le> ?c'" "?c' \<le> 1" by simp_all
  obtain q where q:
    "padic_val p (spec_sub_digits p as bs is ?c') =
       padic_val p (map (digit_at as) is) - padic_val p (map (digit_at bs) is) - ?c' +
       p ^ length is * q"
    using Cons.IH [OF cb] by blast
  have "padic_val p (spec_sub_digits p as bs (i # is) c) =
        ?s mod p + p * padic_val p (spec_sub_digits p as bs is ?c')"
    by simp
  also have "\<dots> = (?s - p * (1 - ?c')) +
        p * (padic_val p (map (digit_at as) is) - padic_val p (map (digit_at bs) is) - ?c' +
             p ^ length is * q)"
    by (simp only: m q)
  also have "\<dots> = padic_val p (map (digit_at as) (i # is)) -
        padic_val p (map (digit_at bs) (i # is)) - c + p ^ length (i # is) * q"
    by (simp add: algebra_simps)
  finally show ?case by blast
qed

lemma spec_sub_value:
  assumes "0 < p" "length as = ka" "length bs = kb"
    and "\<forall>d\<in>set as. 0 \<le> d \<and> d < p" "\<forall>d\<in>set bs. 0 \<le> d \<and> d < p"
  shows "padic_val p (spec_sub p ka kb as bs) =
         (padic_val p as - padic_val p bs) mod p ^ max ka kb"
proof -
  let ?n = "max ka kb"
  let ?r = "spec_sub_digits p as bs [0 ..< ?n] 0"
  obtain q where q: "padic_val p ?r = padic_val p as - padic_val p bs + p ^ ?n * q"
    using spec_sub_digits_value [OF assms(1,4,5), of 0 "[0 ..< ?n]"] assms(2,3)
    by (auto simp: padic_val_map_digit_at)
  have "0 \<le> padic_val p ?r \<and> padic_val p ?r < p ^ length ?r"
    by (rule padic_val_bounds [OF assms(1) spec_sub_digits_range [OF assms(1)]])
  then have b: "0 \<le> padic_val p ?r" "padic_val p ?r < p ^ ?n"
    by (simp_all add: length_spec_sub_digits)
  have "(padic_val p as - padic_val p bs) mod p ^ ?n =
        (padic_val p as - padic_val p bs + p ^ ?n * q) mod p ^ ?n"
    by simp
  also have "\<dots> = padic_val p ?r mod p ^ ?n" using q by simp
  also have "\<dots> = padic_val p ?r" using b by simp
  finally show ?thesis by (simp add: spec_sub_def)
qed

lemma padic_val_update:
  "k < length xs \<Longrightarrow> padic_val p (xs[k := v]) = padic_val p xs + (v - xs ! k) * p ^ k"
proof (induction xs arbitrary: k)
  case Nil
  then show ?case by simp
next
  case (Cons x xs)
  show ?case
  proof (cases k)
    case 0
    then show ?thesis by simp
  next
    case (Suc k')
    with Cons.prems have "k' < length xs" by simp
    then have ih: "padic_val p (xs[k' := v]) = padic_val p xs + (v - xs ! k') * p ^ k'"
      by (rule Cons.IH)
    show ?thesis unfolding Suc by (simp add: ih algebra_simps)
  qed
qed

lemma upt_add_Suc: "[j ..< j + Suc m] = j # [Suc j ..< Suc j + m]"
  by (simp add: upt_conv_Cons)

lemma spec_mul_inner_value:
  "i + j0 + m \<le> length xs \<Longrightarrow>
   padic_val p (fst (spec_mul_inner p as bs i [j0 ..< j0 + m] (xs, c))) +
     snd (spec_mul_inner p as bs i [j0 ..< j0 + m] (xs, c)) * p ^ (i + j0 + m) =
   padic_val p xs + c * p ^ (i + j0) +
     digit_at as i * p ^ i * (p ^ j0 * padic_val p (map (digit_at bs) [j0 ..< j0 + m])) \<and>
   (\<forall>k. i + j0 + m \<le> k \<longrightarrow>
      fst (spec_mul_inner p as bs i [j0 ..< j0 + m] (xs, c)) ! k = xs ! k)"
proof (induction m arbitrary: j0 xs c)
  case 0
  show ?case by simp
next
  case (Suc m)
  define r where "r = xs ! (i + j0)"
  define t where "t = r + digit_at as i * digit_at bs j0 + c"
  define md where "md = t mod p"
  define dv where "dv = t div p"
  define V where "V = padic_val p (map (digit_at bs) [Suc j0 ..< Suc j0 + m])"
  define P where "P = p ^ (i + j0)"
  let ?R = "spec_mul_inner p as bs i [Suc j0 ..< Suc j0 + m] (xs[i + j0 := md], dv)"
  have lt: "i + j0 < length xs" using Suc.prems by simp
  then have rd: "digit_at xs (i + j0) = r" by (simp add: digit_at_def r_def)
  have unfold: "spec_mul_inner p as bs i [j0 ..< j0 + Suc m] (xs, c) = ?R"
    unfolding upt_add_Suc by (simp add: rd t_def md_def dv_def)
  have tt: "t = md + p * dv" by (simp add: md_def dv_def)
  have len: "i + Suc j0 + m \<le> length (xs[i + j0 := md])" using Suc.prems by simp
  note ih = Suc.IH [OF len, of dv]
  have v: "padic_val p (xs[i + j0 := md]) = padic_val p xs + (md - r) * P"
    unfolding r_def P_def by (rule padic_val_update [OF lt])
  have pw: "p ^ (i + Suc j0) = p * P" "p ^ Suc j0 = p * p ^ j0" "P = p ^ i * p ^ j0"
    by (simp_all add: P_def power_add)
  have VV: "padic_val p (map (digit_at bs) [j0 ..< j0 + Suc m]) = digit_at bs j0 + p * V"
    unfolding upt_add_Suc V_def by simp
  have "padic_val p (fst ?R) + snd ?R * p ^ (i + Suc j0 + m) =
        padic_val p (xs[i + j0 := md]) + dv * p ^ (i + Suc j0) +
        digit_at as i * p ^ i * (p ^ Suc j0 * V)"
    using ih unfolding V_def by blast
  also have "\<dots> = padic_val p xs + (md + p * dv - r) * P +
        digit_at as i * p ^ i * (p * p ^ j0 * V)"
    unfolding v pw(1,2) by (simp add: algebra_simps)
  also have "\<dots> = padic_val p xs + (digit_at as i * digit_at bs j0 + c) * P +
        digit_at as i * p ^ i * (p * p ^ j0 * V)"
    unfolding tt [symmetric] by (simp add: t_def)
  also have "\<dots> = padic_val p xs + c * P +
        digit_at as i * p ^ i * (p ^ j0 * (digit_at bs j0 + p * V))"
    unfolding pw(3) by (simp add: algebra_simps)
  finally have val: "padic_val p (fst ?R) + snd ?R * p ^ (i + j0 + Suc m) =
     padic_val p xs + c * p ^ (i + j0) +
     digit_at as i * p ^ i * (p ^ j0 * padic_val p (map (digit_at bs) [j0 ..< j0 + Suc m]))"
    unfolding VV P_def by simp
  have keep: "\<forall>k. i + j0 + Suc m \<le> k \<longrightarrow> fst ?R ! k = xs ! k"
  proof (intro allI impI)
    fix k assume k: "i + j0 + Suc m \<le> k"
    then have "fst ?R ! k = (xs[i + j0 := md]) ! k" using ih by simp
    also have "\<dots> = xs ! k" using k by simp
    finally show "fst ?R ! k = xs ! k" .
  qed
  show ?case unfolding unfold using val keep by blast
qed

lemma spec_mul_row_value:
  assumes "i + kb < length xs" "xs ! (i + kb) = 0" "length bs = kb"
  shows "padic_val p (spec_mul_row p kb as bs i xs) =
           padic_val p xs + digit_at as i * p ^ i * padic_val p bs"
    and "\<forall>k. i + kb < k \<longrightarrow> spec_mul_row p kb as bs i xs ! k = xs ! k"
    and "length (spec_mul_row p kb as bs i xs) = length xs"
proof -
  let ?R = "spec_mul_inner p as bs i [0 ..< kb] (xs, 0)"
  have le: "i + 0 + kb \<le> length xs" using assms(1) by simp
  have inner: "padic_val p (fst ?R) + snd ?R * p ^ (i + kb) =
      padic_val p xs + digit_at as i * p ^ i * padic_val p bs"
    "\<forall>k. i + kb \<le> k \<longrightarrow> fst ?R ! k = xs ! k"
    using spec_mul_inner_value [OF le, of p as bs 0] assms(3)
    by (simp_all add: padic_val_map_digit_at)
  have len: "length (fst ?R) = length xs" by (simp add: length_spec_mul_inner)
  have z: "fst ?R ! (i + kb) = 0" using inner(2) assms(2) by simp
  have "padic_val p ((fst ?R)[i + kb := snd ?R]) =
        padic_val p (fst ?R) + (snd ?R - fst ?R ! (i + kb)) * p ^ (i + kb)"
    using assms(1) len by (intro padic_val_update) simp
  then show "padic_val p (spec_mul_row p kb as bs i xs) =
           padic_val p xs + digit_at as i * p ^ i * padic_val p bs"
    using inner(1) z by (simp add: spec_mul_row_def)
  show "\<forall>k. i + kb < k \<longrightarrow> spec_mul_row p kb as bs i xs ! k = xs ! k"
    using inner(2) by (simp add: spec_mul_row_def)
  show "length (spec_mul_row p kb as bs i xs) = length xs"
    using len by (simp add: spec_mul_row_def)
qed

lemma spec_mul_outer_value:
  assumes "length bs = kb"
  shows "i0 + m + kb \<le> length xs \<Longrightarrow> \<forall>k. i0 + kb \<le> k \<and> k < length xs \<longrightarrow> xs ! k = 0 \<Longrightarrow>
         padic_val p (spec_mul_outer p kb as bs [i0 ..< i0 + m] xs) =
           padic_val p xs +
           p ^ i0 * padic_val p (map (digit_at as) [i0 ..< i0 + m]) * padic_val p bs"
proof (induction m arbitrary: i0 xs)
  case 0
  show ?case by simp
next
  case (Suc m)
  define V where "V = padic_val p (map (digit_at as) [Suc i0 ..< Suc i0 + m])"
  let ?xs' = "spec_mul_row p kb as bs i0 xs"
  have lt: "i0 + kb < length xs" using Suc.prems(1) by simp
  have z: "xs ! (i0 + kb) = 0" using Suc.prems(2) lt by simp
  note row = spec_mul_row_value [OF lt z assms, of p as]
  have len: "Suc i0 + m + kb \<le> length ?xs'" using Suc.prems(1) row(3) by simp
  have zeros: "\<forall>k. Suc i0 + kb \<le> k \<and> k < length ?xs' \<longrightarrow> ?xs' ! k = 0"
    using row(2,3) Suc.prems(2) by simp
  have VV: "padic_val p (map (digit_at as) [i0 ..< i0 + Suc m]) = digit_at as i0 + p * V"
    unfolding upt_add_Suc V_def by simp
  have "padic_val p (spec_mul_outer p kb as bs [i0 ..< i0 + Suc m] xs) =
        padic_val p (spec_mul_outer p kb as bs [Suc i0 ..< Suc i0 + m] ?xs')"
    unfolding upt_add_Suc by simp
  also have "\<dots> = padic_val p ?xs' + p ^ Suc i0 * V * padic_val p bs"
    unfolding V_def by (rule Suc.IH [OF len zeros])
  also have "\<dots> = padic_val p xs + p ^ i0 * (digit_at as i0 + p * V) * padic_val p bs"
    unfolding row(1) by (simp add: algebra_simps)
  finally show ?case unfolding VV .
qed

lemma padic_val_replicate_zero: "padic_val p (replicate n 0) = 0"
  by (induction n) simp_all

lemma spec_mul_value:
  assumes "length as = ka" "length bs = kb"
  shows "padic_val p (spec_mul p ka kb as bs) = padic_val p as * padic_val p bs"
proof -
  have "padic_val p (spec_mul_outer p kb as bs [0 ..< 0 + ka] (replicate (ka + kb) 0)) =
        padic_val p (replicate (ka + kb) 0) +
        p ^ 0 * padic_val p (map (digit_at as) [0 ..< 0 + ka]) * padic_val p bs"
    by (rule spec_mul_outer_value [OF assms(2)]) simp_all
  then show ?thesis
    using assms(1) by (simp add: spec_mul_def padic_val_replicate_zero padic_val_map_digit_at)
qed

text \<open>
  Together with the lemmas of the section before: where the storage type is wide enough,
  the results of the operators stand for the sum and the difference modulo
  \<open>p ^ max ka kb\<close> and for the exact product.
\<close>

lemma add_value:
  assumes "well_formed a" "well_formed b" "prime a = prime b" "0 < prime a"
    and "2 * prime a \<le> 2 ^ dtype_of (prime a)"
  shows "\<exists>r. add a b = Inr r \<and> precision r = max (precision a) (precision b) \<and>
           padic_val (prime a) (digits r) =
             (padic_val (prime a) (digits a) + padic_val (prime a) (digits b))
               mod prime a ^ max (precision a) (precision b)"
proof -
  have "length (digits a) = precision a" "length (digits b) = precision b"
    using assms(1,2) by (simp_all add: well_formed_def)
  then show ?thesis
    using add_correct [OF assms] spec_add_value [OF assms(4)] by simp
qed

lemma sub_value:
  assumes "well_formed a" "well_formed b" "prime a = prime b" "0 < prime a"
    and "2 * prime a \<le> 2 ^ dtype_of (prime a)"
  shows "\<exists>r. sub a b = Inr r \<and> precision r = max (precision a) (precision b) \<and>
           padic_val (prime a) (digits r) =
             (padic_val (prime a) (digits a) - padic_val (prime a) (digits b))
               mod prime a ^ max (precision a) (precision b)"
proof -
  have "length (digits a) = precision a" "length (digits b) = precision b"
    "\<forall>d\<in>set (digits a). 0 \<le> d \<and> d < prime a" "\<forall>d\<in>set (digits b). 0 \<le> d \<and> d < prime a"
    using assms(1,2,3) by (simp_all add: well_formed_def)
  then show ?thesis
    using sub_correct [OF assms] spec_sub_value [OF assms(4)] by simp
qed

lemma mul_value:
  assumes "well_formed a" "well_formed b" "prime a = prime b" "2 \<le> prime a"
    and "prime a * prime a \<le> 2 ^ dtype_of (prime a)"
  shows "\<exists>r. mul a b = Inr r \<and> precision r = precision a + precision b \<and>
           padic_val (prime a) (digits r) =
             padic_val (prime a) (digits a) * padic_val (prime a) (digits b)"
proof -
  have "length (digits a) = precision a" "length (digits b) = precision b"
    using assms(1,2) by (simp_all add: well_formed_def)
  then show ?thesis
    using mul_correct [OF assms] spec_mul_value by simp
qed

section \<open>Commutativity and associativity of addition\<close>

text \<open>
  Addition is commutative on all operands, errors included. On well-formed operands of
  one prime \<open>p\<close> and one precision it is associative where the storage type is wide
  enough for a digit sum, \<open>2 * p \<le> 2 ^ w\<close>.
\<close>

lemma py_add_commute: "py_add a b = py_add b a"
  by (cases a; cases b) (simp_all add: py_add_def add.commute max.commute)

lemma digit_or_zero_error: "digit_or_zero x i = Inl e \<Longrightarrow> e = IndexError"
  by (auto simp: digit_or_zero_def getitem_def split: if_splits)

lemma add_step_commute:
  assumes "prime a = prime b"
  shows "add_step a b i c = add_step b a i c"
proof (cases "digit_or_zero a i")
  case (Inl e)
  then have e: "digit_or_zero a i = Inl IndexError" using digit_or_zero_error by blast
  show ?thesis
  proof (cases "digit_or_zero b i")
    case (Inl e')
    then have "digit_or_zero b i = Inl IndexError" using digit_or_zero_error by blast
    with e show ?thesis by (simp add: add_step_def)
  next
    case (Inr vb)
    with e show ?thesis by (simp add: add_step_def)
  qed
next
  case (Inr va)
  show ?thesis
  proof (cases "digit_or_zero b i")
    case (Inl e')
    with Inr show ?thesis by (simp add: add_step_def)
  next
    case (Inr vb)
    with \<open>digit_or_zero a i = Inr va\<close> assms show ?thesis
      by (simp add: add_step_def py_add_commute [of va vb])
  qed
qed

lemma add_loop_commute:
  assumes "prime a = prime b"
  shows "add_loop a b is result c = add_loop b a is result c"
  by (induction "is" arbitrary: result c)
    (auto simp: add_step_commute [OF assms] split: sum.splits)

lemma add_commute: "add a b = add b a"
proof (cases "prime a = prime b")
  case True
  then show ?thesis
    using add_loop_commute [OF True, of "[0 ..< max (precision a) (precision b)]" "[]" "PyInt 0"]
    by (auto simp: add_def max.commute split: sum.splits)
next
  case False
  then show ?thesis by (auto simp: add_def)
qed


lemma padic_val_inj:
  assumes "0 < p"
  shows "length xs = length ys \<Longrightarrow> \<forall>d\<in>set xs. 0 \<le> d \<and> d < p \<Longrightarrow>
         \<forall>d\<in>set ys. 0 \<le> d \<and> d < p \<Longrightarrow> padic_val p xs = padic_val p ys \<Longrightarrow> xs = ys"
proof (induction xs ys rule: list_induct2)
  case Nil
  show ?case by simp
next
  case (Cons x xs y ys)
  have x: "0 \<le> x" "x < p" and y: "0 \<le> y" "y < p" using Cons.prems(1,2) by simp_all
  have eq: "x + p * padic_val p xs = y + p * padic_val p ys" using Cons.prems(3) by simp
  have "(x + p * padic_val p xs) mod p = x" using x by simp
  moreover have "(y + p * padic_val p ys) mod p = y" using y by simp
  ultimately have xy: "x = y" using eq by simp
  then have "p * padic_val p xs = p * padic_val p ys" using eq by simp
  then have "padic_val p xs = padic_val p ys" using assms by simp
  then have "xs = ys" using Cons.IH Cons.prems(1,2) by simp
  with xy show ?case by simp
qed

lemma add_well_formed:
  assumes "well_formed a" "well_formed b" "prime a = prime b" "0 < prime a"
    and "2 * prime a \<le> 2 ^ dtype_of (prime a)"
  shows "\<exists>r. add a b = Inr r \<and> well_formed r \<and> prime r = prime a \<and>
           precision r = max (precision a) (precision b) \<and>
           padic_val (prime a) (digits r) =
             (padic_val (prime a) (digits a) + padic_val (prime a) (digits b))
               mod prime a ^ max (precision a) (precision b)"
proof -
  have l: "length (digits a) = precision a" "length (digits b) = precision b"
    using assms(1,2) by (simp_all add: well_formed_def)
  show ?thesis
    using add_correct [OF assms] spec_add_value [OF assms(4) l]
      spec_add_digits_range [OF assms(4)]
    by (simp add: well_formed_def spec_add_def length_spec_add_digits)
qed

lemma add_assoc:
  assumes wf: "well_formed a" "well_formed b" "well_formed c"
    and pr: "prime a = p" "prime b = p" "prime c = p"
    and k: "precision a = k" "precision b = k" "precision c = k"
    and p: "0 < p" "2 * p \<le> 2 ^ dtype_of p"
  shows "and_then (add a b) (\<lambda>ab. add ab c) = and_then (add b c) (\<lambda>bc. add a bc)"
proof -
  let ?v = "\<lambda>x. padic_val p (digits x)"
  obtain ab where ab: "add a b = Inr ab" "well_formed ab" "prime ab = p" "precision ab = k"
    "?v ab = (?v a + ?v b) mod p ^ k"
    using add_well_formed [of a b] wf pr k p by auto
  obtain bc where bc: "add b c = Inr bc" "well_formed bc" "prime bc = p" "precision bc = k"
    "?v bc = (?v b + ?v c) mod p ^ k"
    using add_well_formed [of b c] wf pr k p by auto
  obtain l where l: "add ab c = Inr l" "well_formed l" "prime l = p" "precision l = k"
    "?v l = (?v ab + ?v c) mod p ^ k"
    using add_well_formed [of ab c] wf ab pr k p by auto
  obtain r where r: "add a bc = Inr r" "well_formed r" "prime r = p" "precision r = k"
    "?v r = (?v a + ?v bc) mod p ^ k"
    using add_well_formed [of a bc] wf bc pr k p by auto
  have "?v l = (?v a + ?v b + ?v c) mod p ^ k"
    unfolding l(5) ab(5) by (simp add: mod_add_left_eq)
  moreover have "?v r = (?v a + ?v b + ?v c) mod p ^ k"
    unfolding r(5) bc(5) by (simp add: mod_add_right_eq add.assoc)
  ultimately have v: "?v l = ?v r" by simp
  have "digits l = digits r"
    using l(2,3,4) r(2,3,4) v by (intro padic_val_inj [OF p(1)]) (simp_all add: well_formed_def)
  moreover have "dtype l = dtype r" using l(2,3) r(2,3) by (simp add: well_formed_def)
  ultimately have "l = r" using l(3,4) r(3,4) by simp
  then show ?thesis using ab(1) bc(1) l(1) r(1) by simp
qed

section \<open>Arithmetic in the storage type\<close>

text \<open>
  The digits read from the arrays are scalars of the storage type, and so are the sums,
  differences and products computed from them: they are reduced modulo \<open>2 ^ 8\<close>,
  \<open>2 ^ 16\<close> or \<open>2 ^ 32\<close> before the reduction modulo the prime. The evaluations below
  are at primes for which an intermediate value exceeds the storage type.
\<close>

text \<open>
  Claim C1, at a failing input. With prime 251 and precision 2, adding \<open>[250, 0]\<close> to
  itself gives the digits \<open>[244, 0]\<close>: \<open>250 + 250\<close> is reduced to 244 in \<^verbatim>\<open>uint8\<close>. The
  digit-wise addition with carry gives \<open>[249, 1]\<close>, which stands for
  \<open>500 = (250 + 250) mod 251 ^ 2\<close>; the result of the operator stands for 244.
\<close>

theorem add_wraps_in_uint8:
  "and_then (PadicInteger_list [PyInt 250, PyInt 0] 251 2) (\<lambda>a. add a a) =
     Inr \<lparr>prime = 251, precision = 2, dtype = 8, digits = [244, 0]\<rparr> \<and>
   spec_add 251 2 2 [250, 0] [250, 0] = [249, 1] \<and>
   padic_val 251 [244, 0] = 244 \<and>
   (padic_val 251 [250, 0] + padic_val 251 [250, 0]) mod 251 ^ 2 = 500"
  by code_simp

text \<open>
  Claim C2, at a failing input. With prime 251 and precision 2, \<open>[250, 0] - [0, 1]\<close>
  gives the digits \<open>[245, 249]\<close>: \<open>250 - 0 - 0 + 251\<close> is reduced to 245 in \<^verbatim>\<open>uint8\<close>,
  which also sets a borrow. The digit-wise subtraction gives \<open>[250, 250]\<close>, which stands
  for \<open>63000 = (250 - 251) mod 251 ^ 2\<close>; the result of the operator stands for 62744.
\<close>

theorem sub_wraps_in_uint8:
  "and_then (PadicInteger_list [PyInt 250, PyInt 0] 251 2) (\<lambda>a.
   and_then (PadicInteger_list [PyInt 0, PyInt 1] 251 2) (\<lambda>b. sub a b)) =
     Inr \<lparr>prime = 251, precision = 2, dtype = 8, digits = [245, 249]\<rparr> \<and>
   spec_sub 251 2 2 [250, 0] [0, 1] = [250, 250] \<and>
   padic_val 251 [245, 249] = 62744 \<and>
   (padic_val 251 [250, 0] - padic_val 251 [0, 1]) mod 251 ^ 2 = 63000"
  by code_simp

text \<open>
  Claim C3, at a failing input. With prime 17 and precision 1, \<open>[16] * [16]\<close> gives the
  digits \<open>[0, 0]\<close>: \<open>16 * 16\<close> is reduced to 0 in \<^verbatim>\<open>uint8\<close>. The schoolbook convolution
  gives \<open>[1, 15]\<close>, which stands for the product 256; the result of the operator stands
  for 0.
\<close>

theorem mul_wraps_in_uint8:
  "and_then (PadicInteger_list [PyInt 16] 17 1) (\<lambda>a. mul a a) =
     Inr \<lparr>prime = 17, precision = 2, dtype = 8, digits = [0, 0]\<rparr> \<and>
   spec_mul 17 1 1 [16] [16] = [1, 15] \<and>
   padic_val 17 [0, 0] = 0 \<and>
   padic_val 17 [16] * padic_val 17 [16] = 256"
  by code_simp

text \<open>
  Claim C8, at failing inputs. The storage width changes results: in \<^verbatim>\<open>uint16\<close>, with
  prime 257, \<open>[256] * [256]\<close> gives \<open>[0, 0]\<close> where unbounded digits give \<open>[1, 255]\<close>;
  with prime 40009, \<open>[40000] + [40000]\<close> gives \<open>[14464]\<close> where unbounded digits give
  \<open>[39991]\<close>, and \<open>[40000] - [0]\<close> gives \<open>[14473]\<close> where unbounded digits give
  \<open>[40000]\<close>.
\<close>

theorem storage_width_changes_results:
  "and_then (PadicInteger_list [PyInt 256] 257 1) (\<lambda>a. mul a a) =
     Inr \<lparr>prime = 257, precision = 2, dtype = 16, digits = [0, 0]\<rparr> \<and>
   spec_mul 257 1 1 [256] [256] = [1, 255] \<and>
   and_then (PadicInteger_list [PyInt 40000] 40009 1) (\<lambda>a. add a a) =
     Inr \<lparr>prime = 40009, precision = 1, dtype = 16, digits = [14464]\<rparr> \<and>
   spec_add 40009 1 1 [40000] [40000] = [39991] \<and>
   and_then (PadicInteger_list [PyInt 40000] 40009 1) (\<lambda>a.
   and_then (PadicInteger_list [PyInt 0] 40009 1) (\<lambda>b. sub a b)) =
     Inr \<lparr>prime = 40009, precision = 1, dtype = 16, digits = [14473]\<rparr> \<and>
   spec_sub 40009 1 1 [40000] [0] = [40000]"
  by code_simp

text \<open>
  Claim C9, at a failing input. With prime 251 and precision 1, for \<open>a = b = [250]\<close> and
  \<open>c = [1]\<close>, \<open>(a + b) + c\<close> is \<open>[245]\<close> and \<open>a + (b + c)\<close> is \<open>[250]\<close>: addition is not
  associative there.
\<close>

theorem add_not_associative_in_uint8:
  "and_then (PadicInteger_list [PyInt 250] 251 1) (\<lambda>a.
   and_then (PadicInteger_list [PyInt 1] 251 1) (\<lambda>c.
   and_then (add a a) (\<lambda>ab. add ab c))) =
     Inr \<lparr>prime = 251, precision = 1, dtype = 8, digits = [245]\<rparr> \<and>
   and_then (PadicInteger_list [PyInt 250] 251 1) (\<lambda>a.
   and_then (PadicInteger_list [PyInt 1] 251 1) (\<lambda>c.
   and_then (add a c) (\<lambda>bc. add a bc))) =
     Inr \<lparr>prime = 251, precision = 1, dtype = 8, digits = [250]\<rparr>"
  by code_simp

section \<open>Digit arrays shorter than the precision\<close>

text \<open>
  Claim C6, at a failing input. \<^verbatim>\<open>PadicInteger([1], 5, 2)\<close> is accepted and keeps the
  one digit with precision 2. Each operator then reads index 1 of the array, since 1 is
  below the precision, and raises \<^verbatim>\<open>IndexError\<close>: the missing digit is not read as 0.
\<close>

theorem short_digits_raise_IndexError:
  "PadicInteger_list [PyInt 1] 5 2 =
     Inr \<lparr>prime = 5, precision = 2, dtype = 8, digits = [1]\<rparr> \<and>
   and_then (PadicInteger_list [PyInt 1] 5 2) (\<lambda>a. add a a) = Inl IndexError \<and>
   and_then (PadicInteger_list [PyInt 1] 5 2) (\<lambda>a. sub a a) = Inl IndexError \<and>
   and_then (PadicInteger_list [PyInt 1] 5 2) (\<lambda>a. mul a a) = Inl IndexError"
  by code_simp

end
